theory Spec2Isabelle
  imports Main "HOL-Library.AList" "HOL-Library.Char_ord" "HOL-Library.List_Lexorder"
begin

section \<open>Strings\<close>

text \<open>
  Go strings are byte sequences, modelled as \<^typ>\<open>string\<close>.  The helpers below are
  the functions of Go's \<^verbatim>\<open>strings\<close> package that the daemon calls, always with a
  separator of one byte.
\<close>

text \<open>\<^verbatim>\<open>strings.Split(s, sep)\<close>: the pieces of \<open>s\<close> between the separators; never empty.\<close>

fun split_on :: "char \<Rightarrow> string \<Rightarrow> string list" where
  "split_on sep [] = [[]]"
| "split_on sep (c # cs) =
     (if c = sep then [] # split_on sep cs
      else (case split_on sep cs of w # ws \<Rightarrow> (c # w) # ws | [] \<Rightarrow> [[c]]))"

text \<open>\<^verbatim>\<open>strings.SplitN(s, sep, n)\<close>: at most \<open>n\<close> pieces, the last one the unsplit rest.\<close>

fun split_n :: "char \<Rightarrow> nat \<Rightarrow> string \<Rightarrow> string list" where
  "split_n sep n [] = (if n = 0 then [] else [[]])"
| "split_n sep n (c # cs) =
     (if n = 0 then []
      else if n = 1 then [c # cs]
      else if c = sep then [] # split_n sep (n - 1) cs
      else (case split_n sep n cs of w # ws \<Rightarrow> (c # w) # ws | [] \<Rightarrow> [[c]]))"

definition upper_letters :: string where
  "upper_letters = ''ABCDEFGHIJKLMNOPQRSTUVWXYZ''"

definition lower_letters :: string where
  "lower_letters = ''abcdefghijklmnopqrstuvwxyz''"

definition digit_chars :: string where
  "digit_chars = ''0123456789''"

text \<open>
  \<^verbatim>\<open>strings.ToLower\<close> and \<^verbatim>\<open>strings.ToUpper\<close> on the ASCII letters; every other
  byte is left as it is (Go also folds the letters beyond ASCII).
\<close>

definition to_lower_char :: "char \<Rightarrow> char" where
  "to_lower_char c = (case map_of (zip upper_letters lower_letters) c of Some d \<Rightarrow> d | None \<Rightarrow> c)"

definition to_upper_char :: "char \<Rightarrow> char" where
  "to_upper_char c = (case map_of (zip lower_letters upper_letters) c of Some d \<Rightarrow> d | None \<Rightarrow> c)"

definition ToLower :: "string \<Rightarrow> string" where
  "ToLower s = map to_lower_char s"

definition ToUpper :: "string \<Rightarrow> string" where
  "ToUpper s = map to_upper_char s"

text \<open>\<^verbatim>\<open>strings.TrimPrefix(s, ":")\<close> removes one leading colon.\<close>

definition TrimPrefix_colon :: "string \<Rightarrow> string" where
  "TrimPrefix_colon s = (case s of c # cs \<Rightarrow> (if c = CHR '':'' then cs else s) | [] \<Rightarrow> [])"

text \<open>\<^verbatim>\<open>strings.TrimLeft(s, ":")\<close> removes every leading colon.\<close>

definition TrimLeft_colon :: "string \<Rightarrow> string" where
  "TrimLeft_colon s = dropWhile (\<lambda>c. c = CHR '':'') s"

text \<open>\<^verbatim>\<open>strings.TrimSuffix(s, "\n")\<close> removes one trailing newline.\<close>

definition TrimSuffix_nl :: "string \<Rightarrow> string" where
  "TrimSuffix_nl s = (if s \<noteq> [] \<and> last s = CHR 0x0A then butlast s else s)"

text \<open>\<^verbatim>\<open>strings.Join(xs, " ")\<close>.\<close>

fun Join :: "string list \<Rightarrow> string" where
  "Join [] = []"
| "Join [x] = x"
| "Join (x # y # ys) = x @ '' '' @ Join (y # ys)"

text \<open>\<^verbatim>\<open>fmt.Sprintf("%d", n)\<close> for a count.\<close>

fun show_digits :: "nat \<Rightarrow> nat \<Rightarrow> string" where
  "show_digits 0 n = []"
| "show_digits (Suc fuel) n =
     (if n < 10 then [digit_chars ! n]
      else show_digits fuel (n div 10) @ [digit_chars ! (n mod 10)])"

definition show_nat :: "nat \<Rightarrow> string" where
  "show_nat n = show_digits (Suc n) n"

text \<open>\<^verbatim>\<open>RENickname = regexp.MustCompile("^[a-zA-Z0-9-]{1,24}$")\<close>.\<close>

definition RENickname :: "string \<Rightarrow> bool" where
  "RENickname s \<longleftrightarrow>
     1 \<le> length s \<and> length s \<le> 24 \<and>
     (\<forall>c \<in> set s. c \<in> set (lower_letters @ upper_letters @ digit_chars @ ''-''))"

section \<open>Data\<close>

text \<open>
  The calls a client's output interface receives (\<^verbatim>\<open>Msg\<close>, \<^verbatim>\<open>Reply\<close>,
  \<^verbatim>\<open>ReplyParts\<close>, \<^verbatim>\<open>ReplyNicknamed\<close> and the three shorthands for the numerics
  461, 403 and 401), each with its arguments.
\<close>

datatype reply =
    Msg string
  | Reply string
  | ReplyParts string "string list"
  | ReplyNicknamed string "string list"
  | ReplyNotEnoughParameters string
  | ReplyNoChannel string
  | ReplyNoNickChan string

text \<open>
  A \<^verbatim>\<open>*Client\<close>.  Times are instants on one clock, in nanoseconds.  \<open>remoteHost\<close> is
  the host part of the connection's remote address (\<open>None\<close> when it cannot be split),
  \<open>outbox\<close> the calls made on the client's output interface, in order, and \<open>isClosed\<close>
  whether \<^verbatim>\<open>Close\<close> has been called.
\<close>

record Client =
  nickname :: string
  username :: string
  realname :: "string option"
  password :: "string option"
  away :: "string option"
  registered :: bool
  recvTimestamp :: int
  sendTimestamp :: int
  remoteHost :: "string option"
  outbox :: "reply list"
  isClosed :: bool

text \<open>A pointer is \<open>None\<close> for \<^verbatim>\<open>nil\<close> and an address otherwise.\<close>

type_synonym cptr = "nat option"

datatype eventType =
  EventNew | EventDel | EventMsg | EventTopic | EventWho | EventMode | EventTick | EventTerm

record ClientEvent =
  client :: cptr
  eventType :: eventType
  text' :: string

text \<open>A \<^verbatim>\<open>*Room\<close>; \<open>members\<close> is the key set of the room's member map.\<close>

record Room =
  name :: string
  topic :: string
  key :: string
  members :: "cptr list"

text \<open>An unbuffered channel of events: what has been sent on it, and whether it is closed.\<close>

record Chan =
  queue :: "ClientEvent list"
  chClosed :: bool

text \<open>
  How the process can stop instead of going on: \<^verbatim>\<open>log.Fatalf\<close>, a run-time panic,
  or a send on a \<^verbatim>\<open>nil\<close> channel, which blocks for ever.
\<close>

datatype error =
    Fatal
  | PanicNilPointer
  | PanicIndexOutOfRange
  | PanicSendOnClosedChannel
  | PanicCloseOfNilChannel
  | PanicCloseOfClosedChannel
  | BlockedOnNilChannel

text \<open>
  The flags of the command line, the files the daemon reads (\<open>None\<close> is a read error)
  and the channel naming rule \<^verbatim>\<open>RoomNameValid\<close>.
\<close>

record Env =
  hostname :: string
  version :: string
  motd :: string
  statedir :: string
  passwords :: string
  verbose :: bool
  ReadFile :: "string \<Rightarrow> string option"
  RoomNameValid :: "string \<Rightarrow> bool"

text \<open>
  The daemon's global state: the objects behind the pointers, the package-level maps
  \<open>clients\<close>, \<open>rooms\<close> and \<open>roomSinks\<close> (association lists with distinct keys, a
  \<^verbatim>\<open>range\<close> visiting them in list order), the channels made so far, what has been
  handed to the state keeper, and whether \<^verbatim>\<open>finished\<close> has been closed.
\<close>

record Daemon =
  clientHeap :: "nat \<Rightarrow> Client"
  clients :: "cptr list"
  roomHeap :: "nat \<Rightarrow> Room"
  rooms :: "(string \<times> nat) list"
  roomSinks :: "(nat \<times> nat) list"
  chans :: "nat \<Rightarrow> Chan"
  nextRoom :: nat
  nextChan :: nat
  stateSink :: "(string \<times> string \<times> string) list"
  finished :: bool

section \<open>Clients, channels and rooms\<close>

fun for_each :: "('a \<Rightarrow> 's \<Rightarrow> error + 's) \<Rightarrow> 'a list \<Rightarrow> 's \<Rightarrow> error + 's" where
  "for_each f [] s = Inr s"
| "for_each f (x # xs) s = (case f x s of Inl e \<Rightarrow> Inl e | Inr s' \<Rightarrow> for_each f xs s')"

definition upd_client :: "nat \<Rightarrow> (Client \<Rightarrow> Client) \<Rightarrow> Daemon \<Rightarrow> Daemon" where
  "upd_client c f s = s\<lparr>clientHeap := (clientHeap s)(c := f (clientHeap s c))\<rparr>"

definition upd_room :: "nat \<Rightarrow> (Room \<Rightarrow> Room) \<Rightarrow> Daemon \<Rightarrow> Daemon" where
  "upd_room r f s = s\<lparr>roomHeap := (roomHeap s)(r := f (roomHeap s r))\<rparr>"

text \<open>One call on the output interface of client \<open>c\<close>.\<close>

definition send :: "nat \<Rightarrow> reply \<Rightarrow> Daemon \<Rightarrow> Daemon" where
  "send c r s = upd_client c (\<lambda>x. x\<lparr>outbox := outbox x @ [r]\<rparr>) s"

text \<open>Modelled from the spec: \<^verbatim>\<open>Client.Close\<close> of client.go, which is idempotent.\<close>

definition Close :: "nat \<Rightarrow> Daemon \<Rightarrow> Daemon" where
  "Close c s = upd_client c (\<lambda>x. x\<lparr>isClosed := True\<rparr>) s"

text \<open>
  Modelled from the spec: \<^verbatim>\<open>Client.String\<close> of client.go, the prefix
  \<^verbatim>\<open>nick!user@host\<close> with \<^verbatim>\<open>Unknown\<close> for a host that cannot be parsed.
\<close>

definition host_of :: "Client \<Rightarrow> string" where
  "host_of x = (case remoteHost x of None \<Rightarrow> ''Unknown'' | Some h \<Rightarrow> h)"

definition client_string :: "Client \<Rightarrow> string" where
  "client_string x = nickname x @ ''!'' @ username x @ ''@'' @ host_of x"

text \<open>\<^verbatim>\<open>ch <- ev\<close>; the channel is \<open>None\<close> when a map lookup missed.\<close>

definition chan_send :: "nat option \<Rightarrow> ClientEvent \<Rightarrow> Daemon \<Rightarrow> error + Daemon" where
  "chan_send ch ev s =
     (case ch of
        None \<Rightarrow> Inl BlockedOnNilChannel
      | Some a \<Rightarrow>
          if chClosed (chans s a) then Inl PanicSendOnClosedChannel
          else Inr (s\<lparr>chans := (chans s)(a := (chans s a)\<lparr>queue := queue (chans s a) @ [ev]\<rparr>)\<rparr>))"

text \<open>\<^verbatim>\<open>close(ch)\<close>.\<close>

definition chan_close :: "nat option \<Rightarrow> Daemon \<Rightarrow> error + Daemon" where
  "chan_close ch s =
     (case ch of
        None \<Rightarrow> Inl PanicCloseOfNilChannel
      | Some a \<Rightarrow>
          if chClosed (chans s a) then Inl PanicCloseOfClosedChannel
          else Inr (s\<lparr>chans := (chans s)(a := (chans s a)\<lparr>chClosed := True\<rparr>)\<rparr>))"

text \<open>
  A \<^verbatim>\<open>range\<close> over the clients that stops at the first one satisfying \<open>P\<close>; reading
  a field through a \<^verbatim>\<open>nil\<close> key panics.
\<close>

fun find_client :: "(Client \<Rightarrow> bool) \<Rightarrow> (nat \<Rightarrow> Client) \<Rightarrow> cptr list \<Rightarrow> error + nat option" where
  "find_client P h [] = Inr None"
| "find_client P h (None # ps) = Inl PanicNilPointer"
| "find_client P h (Some c # ps) = (if P (h c) then Inr (Some c) else find_client P h ps)"

text \<open>
  Modelled from the spec: \<^verbatim>\<open>NewRoom\<close> of room.go, a room with no members and with empty
  topic and key.
\<close>

definition NewRoom :: "string \<Rightarrow> Room" where
  "NewRoom nm = \<lparr>name = nm, topic = [], key = [], members = []\<rparr>"

text \<open>
  Modelled from the spec: \<^verbatim>\<open>Room.StateSave\<close> of room.go, which hands the room's name,
  topic and key to the state keeper.
\<close>

definition StateSave :: "nat \<Rightarrow> Daemon \<Rightarrow> Daemon" where
  "StateSave r s =
     s\<lparr>stateSink := stateSink s @ [(name (roomHeap s r), topic (roomHeap s r), key (roomHeap s r))]\<rparr>"

section \<open>The daemon\<close>

definition PingTimeout :: int where
  "PingTimeout = 180 * 1000000000"

definition PingThreshold :: int where
  "PingThreshold = 90 * 1000000000"

subsection \<open>SendLusers, SendMotd, SendWhois, SendList\<close>

definition SendLusers :: "nat \<Rightarrow> Daemon \<Rightarrow> error + Daemon" where
  "SendLusers c s =
     (case those (clients s) of
        None \<Rightarrow> Inl PanicNilPointer
      | Some cs \<Rightarrow>
          Inr (send c (ReplyNicknamed ''251''
                 [''There are '' @ show_nat (length (filter (\<lambda>a. registered (clientHeap s a)) cs))
                    @ '' users and 0 invisible on 1 servers'']) s))"

text \<open>The flag pointer \<^verbatim>\<open>motd\<close> is never \<^verbatim>\<open>nil\<close>, so the first branch of the source is dead.\<close>

definition SendMotd :: "Env \<Rightarrow> nat \<Rightarrow> Daemon \<Rightarrow> Daemon" where
  "SendMotd env c s =
     (case ReadFile env (motd env) of
        None \<Rightarrow> send c (ReplyNicknamed ''422'' [''Error reading MOTD File'']) s
      | Some motdText \<Rightarrow>
          send c (ReplyNicknamed ''376'' [''End of /MOTD command''])
            (fold (\<lambda>l. send c (ReplyNicknamed ''372'' [''- '' @ l]))
               (split_on (CHR 0x0A) (TrimSuffix_nl motdText))
               (send c (ReplyNicknamed ''375'' [''- '' @ hostname env @ '' Message of the day -'']) s)))"

text \<open>The room names collected for one nickname: one per member carrying it.\<close>

fun subscriptions_of :: "Daemon \<Rightarrow> string \<Rightarrow> nat list \<Rightarrow> error + string list" where
  "subscriptions_of s nick [] = Inr []"
| "subscriptions_of s nick (r # rs) =
     (case those (members (roomHeap s r)) of
        None \<Rightarrow> Inl PanicNilPointer
      | Some ms \<Rightarrow>
          (case subscriptions_of s nick rs of
             Inl e \<Rightarrow> Inl e
           | Inr subs \<Rightarrow>
               Inr (replicate (length (filter (\<lambda>m. nickname (clientHeap s m) = nick) ms))
                      (name (roomHeap s r)) @ subs)))"

definition whois_one :: "Env \<Rightarrow> nat \<Rightarrow> string \<Rightarrow> Daemon \<Rightarrow> error + Daemon" where
  "whois_one env c nickname0 s =
     (let nick = ToLower nickname0 in
      case find_client (\<lambda>x. ToLower (nickname x) = nick) (clientHeap s) (clients s) of
        Inl e \<Rightarrow> Inl e
      | Inr None \<Rightarrow> Inr (send c (ReplyNoNickChan nick) s)
      | Inr (Some t) \<Rightarrow>
          (let x = clientHeap s t in
           case realname x of
             None \<Rightarrow> Inl PanicNilPointer
           | Some rn \<Rightarrow>
               (let s1 = send c (ReplyNicknamed ''311'' [nickname x, username x, host_of x, ''*'', rn]) s;
                    s2 = send c (ReplyNicknamed ''312'' [nickname x, hostname env, hostname env]) s1;
                    s3 = (case away x of
                            None \<Rightarrow> s2
                          | Some a \<Rightarrow> send c (ReplyNicknamed ''301'' [nickname x, a]) s2)
                in case subscriptions_of s3 nick (map snd (rooms s3)) of
                     Inl e \<Rightarrow> Inl e
                   | Inr subs \<Rightarrow>
                       Inr (send c (ReplyNicknamed ''318'' [nickname x, ''End of /WHOIS list''])
                              (send c (ReplyNicknamed ''319'' [nickname x, Join (sort subs)]) s3)))))"

definition SendWhois :: "Env \<Rightarrow> nat \<Rightarrow> string list \<Rightarrow> Daemon \<Rightarrow> error + Daemon" where
  "SendWhois env c nicknames s = for_each (whois_one env c) nicknames s"

definition SendList :: "nat \<Rightarrow> string list \<Rightarrow> Daemon \<Rightarrow> Daemon" where
  "SendList c cols s =
     (let rs = (if length cols > 1 \<and> cols ! 1 \<noteq> []
                then split_on CHR '','' (hd (split_on CHR '' '' (cols ! 1)))
                else map fst (rooms s))
      in send c (ReplyNicknamed ''323'' [''End of /LIST''])
           (fold (\<lambda>r s'. case map_of (rooms s') r of
                            None \<Rightarrow> s'
                          | Some rm \<Rightarrow>
                              send c (ReplyNicknamed ''322''
                                [r, show_nat (length (members (roomHeap s' rm))), topic (roomHeap s' rm)]) s')
              (sort rs) s))"

subsection \<open>ClientRegister\<close>

text \<open>Whether a statement ends the function (or the loop iteration) or lets it go on.\<close>

datatype flow = Continue | Next | Return

text \<open>
  The loop over the entries of the passwords file: \<open>Inr True\<close> when an entry for the
  nickname carries another password.  An entry that is the nickname alone has no second
  field to read.
\<close>

fun password_denied :: "string \<Rightarrow> string \<Rightarrow> string list \<Rightarrow> error + bool" where
  "password_denied nick pw [] = Inr False"
| "password_denied nick pw (entry # es) =
     (if entry = [] then password_denied nick pw es
      else (let lp = split_on CHR '':'' entry in
            if hd lp = nick then
              (if length lp < 2 then Inl PanicIndexOutOfRange
               else if lp ! 1 \<noteq> pw then Inr True
               else password_denied nick pw es)
            else password_denied nick pw es))"

text \<open>The \<^verbatim>\<open>switch\<close> of \<^verbatim>\<open>ClientRegister\<close>; \<open>cols\<close> has one or two elements.\<close>

definition register_command :: "nat \<Rightarrow> string \<Rightarrow> string list \<Rightarrow> Daemon \<Rightarrow> error + flow \<times> Daemon" where
  "register_command c cmd cols s =
     (if cmd = ''PASS'' then
        (if length cols = 1 \<or> length (cols ! 1) < 1
         then Inr (Return, send c (ReplyNotEnoughParameters ''PASS'') s)
         else Inr (Next, upd_client c (\<lambda>x. x\<lparr>password := Some (cols ! 1)\<rparr>) s))
      else if cmd = ''NICK'' then
        (if length cols = 1 \<or> length (cols ! 1) < 1
         then Inr (Return, send c (ReplyParts ''431'' [''No nickname given'']) s)
         else (let nick = ToLower (TrimPrefix_colon (cols ! 1)) in
               case find_client (\<lambda>x. nickname x = nick) (clientHeap s) (clients s) of
                 Inl e \<Rightarrow> Inl e
               | Inr (Some t) \<Rightarrow>
                   Inr (Return, send c (ReplyParts ''433'' [''*'', nick, ''Nickname is already in use'']) s)
               | Inr None \<Rightarrow>
                   if \<not> RENickname nick
                   then Inr (Return, send c (ReplyParts ''432'' [''*'', cols ! 1, ''Erroneous nickname'']) s)
                   else Inr (Next, upd_client c (\<lambda>x. x\<lparr>nickname := nick\<rparr>) s)))
      else if cmd = ''USER'' then
        (if length cols = 1
         then Inr (Return, send c (ReplyNotEnoughParameters ''USER'') s)
         else (let args = split_n CHR '' '' 4 (cols ! 1) in
               if length args < 4
               then Inr (Return, send c (ReplyNotEnoughParameters ''USER'') s)
               else Inr (Next, upd_client c
                           (\<lambda>x. x\<lparr>username := args ! 0, realname := Some (TrimLeft_colon (args ! 3))\<rparr>) s)))
      else Inr (Next, s))"

text \<open>What follows the check of the password: the flag, the welcome, the users, the MOTD.\<close>

definition welcome_numerics :: "Env \<Rightarrow> nat \<Rightarrow> Daemon \<Rightarrow> Daemon" where
  "welcome_numerics env c s =
     send c (ReplyNicknamed ''004'' [hostname env @ '' goircd o o''])
       (send c (ReplyNicknamed ''003'' [''This server was created sometime''])
          (send c (ReplyNicknamed ''002''
                     [''Your host is '' @ hostname env @ '', running goircd '' @ version env])
             (send c (ReplyNicknamed ''001'' [''Hi, welcome to IRC''])
                (upd_client c (\<lambda>x. x\<lparr>registered := True\<rparr>) s))))"

definition welcome_client :: "Env \<Rightarrow> nat \<Rightarrow> Daemon \<Rightarrow> error + Daemon" where
  "welcome_client env c s =
     (case SendLusers c (welcome_numerics env c s) of
        Inl e \<Rightarrow> Inl e
      | Inr s6 \<Rightarrow> Inr (SendMotd env c s6))"

text \<open>The rejection with numeric 462.\<close>

definition reject :: "nat \<Rightarrow> Daemon \<Rightarrow> Daemon" where
  "reject c s = Close c (send c (ReplyParts ''462'' [''You may not register'']) s)"

text \<open>
  The end of \<^verbatim>\<open>ClientRegister\<close>, reached after every command that did not return.  The
  flag pointer \<^verbatim>\<open>passwords\<close> is never \<^verbatim>\<open>nil\<close>.
\<close>

definition registration_check :: "Env \<Rightarrow> nat \<Rightarrow> Daemon \<Rightarrow> error + Daemon" where
  "registration_check env c s =
     (let x = clientHeap s c in
      if nickname x \<noteq> ''*'' \<and> username x \<noteq> [] then
        (if passwords env \<noteq> [] then
           (case password x of
              None \<Rightarrow> Inr (reject c s)
            | Some pw \<Rightarrow>
                (case ReadFile env (passwords env) of
                   None \<Rightarrow> Inl Fatal
                 | Some contents \<Rightarrow>
                     (case password_denied (nickname x) pw (split_on (CHR 0x0A) contents) of
                        Inl e \<Rightarrow> Inl e
                      | Inr True \<Rightarrow> Inr (reject c s)
                      | Inr False \<Rightarrow> welcome_client env c s)))
         else welcome_client env c s)
      else Inr s)"

definition ClientRegister :: "Env \<Rightarrow> nat \<Rightarrow> string \<Rightarrow> string list \<Rightarrow> Daemon \<Rightarrow> error + Daemon" where
  "ClientRegister env c cmd cols s =
     (case register_command c cmd cols s of
        Inl e \<Rightarrow> Inl e
      | Inr (Next, s1) \<Rightarrow> registration_check env c s1
      | Inr (_, s1) \<Rightarrow> Inr s1)"

subsection \<open>RoomRegister and HandlerJoin\<close>

text \<open>
  The new room and its new channel are entered in both maps.  The room's goroutine and
  the wait group are not part of the state.
\<close>

definition RoomRegister :: "string \<Rightarrow> Daemon \<Rightarrow> nat \<times> nat \<times> Daemon" where
  "RoomRegister nm s =
     (let roomNew = nextRoom s; roomSink = nextChan s
      in (roomNew, roomSink,
          s\<lparr>roomHeap := (roomHeap s)(roomNew := NewRoom nm),
            chans := (chans s)(roomSink := \<lparr>queue = [], chClosed = False\<rparr>),
            rooms := AList.update nm roomNew (rooms s),
            roomSinks := AList.update roomNew roomSink (roomSinks s),
            nextRoom := Suc roomNew,
            nextChan := Suc roomSink\<rparr>))"

text \<open>The key that goes with the \<open>n\<close>-th name of a JOIN.\<close>

definition join_key :: "string list \<Rightarrow> nat \<Rightarrow> string" where
  "join_key keys n = (if n < length keys \<and> keys ! n \<noteq> [] then keys ! n else [])"

text \<open>The body of the loop of \<^verbatim>\<open>HandlerJoin\<close>, for the \<open>n\<close>-th name \<open>room\<close>.\<close>

definition join_room :: "Env \<Rightarrow> nat \<Rightarrow> string list \<Rightarrow> nat \<times> string \<Rightarrow> Daemon \<Rightarrow> error + Daemon" where
  "join_room env c keys nroom s =
     (let n = fst nroom; room = snd nroom in
      if \<not> RoomNameValid env room then Inr (send c (ReplyNoChannel room) s)
      else
        (let k = join_key keys n in
         case find (\<lambda>(roomExisting, roomSink). room = name (roomHeap s roomExisting)) (roomSinks s) of
           Some (roomExisting, roomSink) \<Rightarrow>
             if key (roomHeap s roomExisting) \<noteq> [] \<and> key (roomHeap s roomExisting) \<noteq> k
             then Inr (send c (ReplyNicknamed ''475'' [room, ''Cannot join channel (+k) - bad key'']) s)
             else chan_send (Some roomSink) \<lparr>client = Some c, eventType = EventNew, text' = []\<rparr> s
         | None \<Rightarrow>
             (case RoomRegister room s of
                (roomNew, roomSink, s1) \<Rightarrow>
                  chan_send (Some roomSink) \<lparr>client = Some c, eventType = EventNew, text' = []\<rparr>
                    (if k \<noteq> [] then StateSave roomNew (upd_room roomNew (\<lambda>x. x\<lparr>key := k\<rparr>) s1)
                     else s1))))"

definition HandlerJoin :: "Env \<Rightarrow> nat \<Rightarrow> string \<Rightarrow> Daemon \<Rightarrow> error + Daemon" where
  "HandlerJoin env c cmd s =
     (let args = split_on CHR '' '' cmd;
          rs = split_on CHR '','' (hd args);
          keys = (if length args > 1 then split_on CHR '','' (args ! 1) else [])
      in for_each (join_room env c keys) (enumerate 0 rs) s)"

subsection \<open>Processor\<close>

text \<open>
  The first loop of a tick, for one client.  \<open>timeNow c\<close> is what the second call of
  \<^verbatim>\<open>time.Now\<close> returns when it is made for client \<open>c\<close>.
\<close>

definition tick_client :: "Env \<Rightarrow> int \<Rightarrow> (nat \<Rightarrow> int) \<Rightarrow> nat \<Rightarrow> Daemon \<Rightarrow> Daemon" where
  "tick_client env now timeNow c s =
     (let x = clientHeap s c in
      if recvTimestamp x + PingTimeout < now then Close c s
      else if sendTimestamp x + PingThreshold < now then
        (if registered x
         then upd_client c (\<lambda>y. y\<lparr>sendTimestamp := timeNow c\<rparr>)
                (send c (Msg (''PING :'' @ hostname env)) s)
         else Close c s)
      else s)"

fun tick_clients :: "Env \<Rightarrow> int \<Rightarrow> (nat \<Rightarrow> int) \<Rightarrow> cptr list \<Rightarrow> Daemon \<Rightarrow> error + Daemon" where
  "tick_clients env now timeNow [] s = Inr s"
| "tick_clients env now timeNow (None # ps) s = Inl PanicNilPointer"
| "tick_clients env now timeNow (Some c # ps) s =
     tick_clients env now timeNow ps (tick_client env now timeNow c s)"

text \<open>The second loop of a tick, for one entry of \<open>rooms\<close>.\<close>

definition tick_room :: "Env \<Rightarrow> string \<times> nat \<Rightarrow> Daemon \<Rightarrow> error + Daemon" where
  "tick_room env rnr s =
     (let rn = fst rnr; r = snd rnr in
      if statedir env = [] \<and> length (members (roomHeap s r)) = 0 then
        (let s1 = s\<lparr>rooms := AList.delete rn (rooms s)\<rparr> in
         case chan_close (map_of (roomSinks s1) r) s1 of
           Inl e \<Rightarrow> Inl e
         | Inr s2 \<Rightarrow> Inr (s2\<lparr>roomSinks := AList.delete r (roomSinks s2)\<rparr>))
      else Inr s)"

text \<open>The commands of a registered client, each with how it leaves the \<^verbatim>\<open>switch\<close>.\<close>

definition cmd_AWAY :: "nat \<Rightarrow> string list \<Rightarrow> Daemon \<Rightarrow> flow \<times> Daemon" where
  "cmd_AWAY c cols s =
     (if length cols = 1
      then (Continue, send c (ReplyNicknamed ''305'' [''You are no longer marked as being away''])
                        (upd_client c (\<lambda>x. x\<lparr>away := None\<rparr>) s))
      else (Next, send c (ReplyNicknamed ''306'' [''You have been marked as being away''])
                    (upd_client c (\<lambda>x. x\<lparr>away := Some (cols ! 1)\<rparr>) s)))"

definition cmd_JOIN :: "Env \<Rightarrow> nat \<Rightarrow> string list \<Rightarrow> Daemon \<Rightarrow> error + flow \<times> Daemon" where
  "cmd_JOIN env c cols s =
     (if length cols = 1 \<or> length (cols ! 1) < 1
      then Inr (Continue, send c (ReplyNotEnoughParameters ''JOIN'') s)
      else (case HandlerJoin env c (cols ! 1) s of
              Inl e \<Rightarrow> Inl e
            | Inr s1 \<Rightarrow> Inr (Next, s1)))"

definition cmd_MODE :: "nat \<Rightarrow> string list \<Rightarrow> Daemon \<Rightarrow> error + flow \<times> Daemon" where
  "cmd_MODE c cols0 s =
     (if length cols0 = 1 \<or> length (cols0 ! 1) < 1
      then Inr (Continue, send c (ReplyNotEnoughParameters ''MODE'') s)
      else
        (let cols = split_n CHR '' '' 2 (cols0 ! 1) in
         if cols ! 0 = username (clientHeap s c) then
           (if length cols = 1
            then Inr (Continue, send c (Msg (''221 '' @ nickname (clientHeap s c) @ '' +'')) s)
            else Inr (Continue, send c (ReplyNicknamed ''501'' [''Unknown MODE flag'']) s))
         else
           (let room = cols ! 0 in
            case map_of (rooms s) room of
              None \<Rightarrow> Inr (Continue, send c (ReplyNoChannel room) s)
            | Some r \<Rightarrow>
                (case chan_send (map_of (roomSinks s) r)
                        \<lparr>client = Some c, eventType = EventMode,
                         text' = (if length cols = 1 then [] else cols ! 1)\<rparr> s of
                   Inl e \<Rightarrow> Inl e
                 | Inr s1 \<Rightarrow> Inr (Next, s1)))))"

text \<open>The loop of PART, for one name.\<close>

definition part_room :: "nat \<Rightarrow> string \<Rightarrow> Daemon \<Rightarrow> error + Daemon" where
  "part_room c room s =
     (case map_of (rooms s) room of
        Some r \<Rightarrow> chan_send (map_of (roomSinks s) r) \<lparr>client = Some c, eventType = EventDel, text' = []\<rparr> s
      | None \<Rightarrow> Inr (send c (ReplyNoChannel room) s))"

definition cmd_PART :: "nat \<Rightarrow> string list \<Rightarrow> Daemon \<Rightarrow> error + flow \<times> Daemon" where
  "cmd_PART c cols s =
     (if length cols = 1 \<or> length (cols ! 1) < 1
      then Inr (Continue, send c (ReplyNotEnoughParameters ''PART'') s)
      else (case for_each (part_room c) (split_on CHR '','' (hd (split_on CHR '' '' (cols ! 1)))) s of
              Inl e \<Rightarrow> Inl e
            | Inr s1 \<Rightarrow> Inr (Next, s1)))"

definition cmd_PING :: "Env \<Rightarrow> nat \<Rightarrow> string list \<Rightarrow> Daemon \<Rightarrow> flow \<times> Daemon" where
  "cmd_PING env c cols s =
     (if length cols = 1
      then (Continue, send c (ReplyNicknamed ''409'' [''No origin specified'']) s)
      else (Next, send c (Reply (''PONG '' @ hostname env @ '' :'' @ cols ! 1)) s))"

definition cmd_PRIVMSG :: "nat \<Rightarrow> string \<Rightarrow> string list \<Rightarrow> Daemon \<Rightarrow> error + flow \<times> Daemon" where
  "cmd_PRIVMSG c cmd cols0 s =
     (if length cols0 = 1
      then Inr (Continue, send c (ReplyNicknamed ''411'' [''No recipient given ('' @ cmd @ '')'']) s)
      else
        (let cols = split_n CHR '' '' 2 (cols0 ! 1) in
         if length cols = 1
         then Inr (Continue, send c (ReplyNicknamed ''412'' [''No text to send'']) s)
         else
           (let target = ToLower (cols ! 0) in
            case find_client (\<lambda>x. nickname x = target) (clientHeap s) (clients s) of
              Inl e \<Rightarrow> Inl e
            | Inr (Some t) \<Rightarrow>
                (let msg = '':'' @ client_string (clientHeap s c) @ '' '' @ cmd @ '' ''
                             @ nickname (clientHeap s t) @ '' '' @ cols ! 1;
                     s1 = send t (Msg msg) s
                 in Inr (Continue,
                      (case away (clientHeap s1 t) of
                         None \<Rightarrow> s1
                       | Some a \<Rightarrow> send c (ReplyNicknamed ''301'' [nickname (clientHeap s1 t), a]) s1)))
            | Inr None \<Rightarrow>
                (case map_of (rooms s) target of
                   Some r \<Rightarrow>
                     (case chan_send (map_of (roomSinks s) r)
                             \<lparr>client = Some c, eventType = EventMsg,
                              text' = cmd @ '' '' @ TrimLeft_colon (cols ! 1)\<rparr> s of
                        Inl e \<Rightarrow> Inl e
                      | Inr s1 \<Rightarrow> Inr (Next, s1))
                 | None \<Rightarrow> Inr (Next, send c (ReplyNoNickChan target) s)))))"

definition cmd_TOPIC :: "nat \<Rightarrow> string list \<Rightarrow> Daemon \<Rightarrow> error + flow \<times> Daemon" where
  "cmd_TOPIC c cols0 s =
     (if length cols0 = 1
      then Inr (Continue, send c (ReplyNotEnoughParameters ''TOPIC'') s)
      else
        (let cols = split_n CHR '' '' 2 (cols0 ! 1) in
         case map_of (rooms s) (cols ! 0) of
           None \<Rightarrow> Inr (Continue, send c (ReplyNoChannel (cols ! 0)) s)
         | Some r \<Rightarrow>
             (case chan_send (map_of (roomSinks s) r)
                     \<lparr>client = Some c, eventType = EventTopic,
                      text' = (if length cols > 1 then cols ! 1 else [])\<rparr> s of
                Inl e \<Rightarrow> Inl e
              | Inr s1 \<Rightarrow> Inr (Next, s1))))"

definition cmd_WHO :: "nat \<Rightarrow> string list \<Rightarrow> Daemon \<Rightarrow> error + flow \<times> Daemon" where
  "cmd_WHO c cols s =
     (if length cols = 1 \<or> length (cols ! 1) < 1
      then Inr (Continue, send c (ReplyNotEnoughParameters ''WHO'') s)
      else
        (let room = hd (split_on CHR '' '' (cols ! 1)) in
         case map_of (rooms s) room of
           Some r \<Rightarrow>
             (case chan_send (map_of (roomSinks s) r) \<lparr>client = Some c, eventType = EventWho, text' = []\<rparr> s of
                Inl e \<Rightarrow> Inl e
              | Inr s1 \<Rightarrow> Inr (Next, s1))
         | None \<Rightarrow> Inr (Next, send c (ReplyNoChannel room) s)))"

definition cmd_WHOIS :: "Env \<Rightarrow> nat \<Rightarrow> string list \<Rightarrow> Daemon \<Rightarrow> error + flow \<times> Daemon" where
  "cmd_WHOIS env c cols0 s =
     (if length cols0 = 1 \<or> length (cols0 ! 1) < 1
      then Inr (Continue, send c (ReplyNotEnoughParameters ''WHOIS'') s)
      else
        (let cols = split_on CHR '' '' (cols0 ! 1);
             nicknames = split_on CHR '','' (last cols)
         in case SendWhois env c nicknames s of
              Inl e \<Rightarrow> Inl e
            | Inr s1 \<Rightarrow> Inr (Next, s1)))"

definition cmd_ISON :: "nat \<Rightarrow> string list \<Rightarrow> Daemon \<Rightarrow> error + flow \<times> Daemon" where
  "cmd_ISON c cols s =
     (if length cols = 1 \<or> length (cols ! 1) < 1
      then Inr (Continue, send c (ReplyNotEnoughParameters ''ISON'') s)
      else
        (case those (clients s) of
           None \<Rightarrow> Inl PanicNilPointer
         | Some cs \<Rightarrow>
             (let nicksKnown = set (map (\<lambda>a. nickname (clientHeap s a)) cs);
                  nicksExists = filter (\<lambda>nick. nick \<in> nicksKnown) (split_on CHR '' '' (cols ! 1))
              in Inr (Next, send c (ReplyNicknamed ''303'' [Join nicksExists]) s))))"

definition cmd_VERSION :: "Env \<Rightarrow> nat \<Rightarrow> Daemon \<Rightarrow> flow \<times> Daemon" where
  "cmd_VERSION env c s =
     (let debug = (if verbose env then ''debug'' else [])
      in (Next, send c (ReplyNicknamed ''351'' [version env @ ''.'' @ debug @ '' '' @ hostname env @ '' :'']) s))"

text \<open>The \<^verbatim>\<open>switch cmd\<close> of a registered client.\<close>

definition dispatch :: "Env \<Rightarrow> nat \<Rightarrow> string \<Rightarrow> string list \<Rightarrow> Daemon \<Rightarrow> error + flow \<times> Daemon" where
  "dispatch env c cmd cols s =
     (if cmd = ''AWAY'' then Inr (cmd_AWAY c cols s)
      else if cmd = ''JOIN'' then cmd_JOIN env c cols s
      else if cmd = ''LIST'' then Inr (Next, SendList c cols s)
      else if cmd = ''LUSERS'' then
        (case SendLusers c s of Inl e \<Rightarrow> Inl e | Inr s1 \<Rightarrow> Inr (Next, s1))
      else if cmd = ''MODE'' then cmd_MODE c cols s
      else if cmd = ''MOTD'' then Inr (Next, SendMotd env c s)
      else if cmd = ''PART'' then cmd_PART c cols s
      else if cmd = ''PING'' then Inr (cmd_PING env c cols s)
      else if cmd = ''PONG'' then Inr (Continue, s)
      else if cmd = ''NOTICE'' \<or> cmd = ''PRIVMSG'' then cmd_PRIVMSG c cmd cols s
      else if cmd = ''TOPIC'' then cmd_TOPIC c cols s
      else if cmd = ''WHO'' then cmd_WHO c cols s
      else if cmd = ''WHOIS'' then cmd_WHOIS env c cols s
      else if cmd = ''ISON'' then cmd_ISON c cols s
      else if cmd = ''VERSION'' then Inr (cmd_VERSION env c s)
      else Inr (Next, send c (ReplyNicknamed ''421'' [cmd, ''Unknown command'']) s))"

text \<open>\<^verbatim>\<open>case EventMsg\<close>; every use of a \<^verbatim>\<open>nil\<close> client panics.\<close>

definition handle_msg :: "Env \<Rightarrow> ClientEvent \<Rightarrow> Daemon \<Rightarrow> error + flow \<times> Daemon" where
  "handle_msg env event s =
     (let cols = split_n CHR '' '' 2 (text' event);
          cmd = ToUpper (cols ! 0)
      in case client event of
           None \<Rightarrow> Inl PanicNilPointer
         | Some c \<Rightarrow>
             if cmd = ''QUIT'' then Inr (Continue, Close c s)
             else if \<not> registered (clientHeap s c) then
               (case ClientRegister env c cmd cols s of
                  Inl e \<Rightarrow> Inl e
                | Inr s1 \<Rightarrow> Inr (Continue, s1))
             else dispatch env c cmd cols s)"

text \<open>The \<^verbatim>\<open>switch event.eventType\<close>.\<close>

definition handle_event :: "Env \<Rightarrow> int \<Rightarrow> (nat \<Rightarrow> int) \<Rightarrow> ClientEvent \<Rightarrow> Daemon \<Rightarrow> error + flow \<times> Daemon" where
  "handle_event env now timeNow event s =
     (case eventType event of
        EventTick \<Rightarrow>
          (case tick_clients env now timeNow (clients s) s of
             Inl e \<Rightarrow> Inl e
           | Inr s1 \<Rightarrow>
               (case for_each (tick_room env) (rooms s1) s1 of
                  Inl e \<Rightarrow> Inl e
                | Inr s2 \<Rightarrow> Inr (Next, s2)))
      | EventTerm \<Rightarrow>
          (case for_each (\<lambda>sink. chan_send (Some sink) \<lparr>client = None, eventType = EventTerm, text' = []\<rparr>)
                  (map snd (roomSinks s)) s of
             Inl e \<Rightarrow> Inl e
           | Inr s1 \<Rightarrow> Inr (Return, s1\<lparr>finished := True\<rparr>))
      | EventNew \<Rightarrow>
          Inr (Next, if client event \<in> set (clients s) then s
                     else s\<lparr>clients := clients s @ [client event]\<rparr>)
      | EventDel \<Rightarrow>
          (case for_each (\<lambda>roomSink. chan_send (Some roomSink) event) (map snd (roomSinks s))
                  (s\<lparr>clients := removeAll (client event) (clients s)\<rparr>) of
             Inl e \<Rightarrow> Inl e
           | Inr s1 \<Rightarrow> Inr (Next, s1))
      | EventMsg \<Rightarrow> handle_msg env event s
      | _ \<Rightarrow> Inr (Next, s))"

text \<open>
  One iteration of the loop of \<^verbatim>\<open>Processor\<close>: \<open>now\<close> is taken first, the event is
  handled, and only an iteration that reaches the end of the loop body stamps the client.
\<close>

definition Processor :: "Env \<Rightarrow> int \<Rightarrow> (nat \<Rightarrow> int) \<Rightarrow> ClientEvent \<Rightarrow> Daemon \<Rightarrow> error + Daemon" where
  "Processor env now timeNow event s =
     (case handle_event env now timeNow event s of
        Inl e \<Rightarrow> Inl e
      | Inr (Next, s1) \<Rightarrow>
          Inr (case client event of
                 None \<Rightarrow> s1
               | Some c \<Rightarrow> upd_client c (\<lambda>x. x\<lparr>recvTimestamp := now\<rparr>) s1)
      | Inr (_, s1) \<Rightarrow> Inr s1)"

subsection \<open>Run: loading the saved rooms\<close>

text \<open>
  One state file found by the glob: the base name of its path and what reading it gives.
  The room is registered before the contents are looked at.
\<close>

definition load_state :: "string \<times> string option \<Rightarrow> Daemon \<Rightarrow> error + Daemon" where
  "load_state st s =
     (case snd st of
        None \<Rightarrow> Inl Fatal
      | Some buf \<Rightarrow>
          (case RoomRegister (fst st) s of
             (r, sink, s1) \<Rightarrow>
               (let contents = split_on (CHR 0x0A) buf in
                if length contents < 2 then Inr s1
                else Inr (upd_room r (\<lambda>x. x\<lparr>topic := contents ! 0, key := contents ! 1\<rparr>) s1))))"

definition load_states :: "(string \<times> string option) list \<Rightarrow> Daemon \<Rightarrow> error + Daemon" where
  "load_states states s = for_each load_state states s"

section \<open>Invariants\<close>

text \<open>
  The two room maps describe the same rooms: every room that \<open>rooms\<close> names is a key of
  \<open>roomSinks\<close> and carries the name it is filed under, every key of \<open>roomSinks\<close> is
  filed in \<open>rooms\<close> under its own name, the channels of \<open>roomSinks\<close> are open and
  pairwise different, and rooms and channels made later are new.
\<close>

definition rooms_inv :: "Daemon \<Rightarrow> bool" where
  "rooms_inv s \<longleftrightarrow>
     distinct (map fst (rooms s)) \<and>
     distinct (map fst (roomSinks s)) \<and>
     distinct (map snd (roomSinks s)) \<and>
     (\<forall>(n, r) \<in> set (rooms s). r \<in> fst ` set (roomSinks s) \<and> name (roomHeap s r) = n) \<and>
     (\<forall>(r, ch) \<in> set (roomSinks s).
        (name (roomHeap s r), r) \<in> set (rooms s) \<and> \<not> chClosed (chans s ch)
        \<and> r < nextRoom s \<and> ch < nextChan s)"

text \<open>
  A client that is neither registered nor closed has not given both a nickname and a
  user name: the check at the end of \<^verbatim>\<open>ClientRegister\<close> registers or closes it as
  soon as it has.
\<close>

definition client_inv :: "Client \<Rightarrow> bool" where
  "client_inv x \<longleftrightarrow> registered x \<or> isClosed x \<or> nickname x = ''*'' \<or> username x = []"

definition clients_inv :: "Daemon \<Rightarrow> bool" where
  "clients_inv s \<longleftrightarrow> (\<forall>c. client_inv (clientHeap s c))"

text \<open>The ways of stopping that come from a channel that is missing or closed.\<close>

definition channel_error :: "error \<Rightarrow> bool" where
  "channel_error e \<longleftrightarrow>
     e = BlockedOnNilChannel \<or> e = PanicCloseOfNilChannel \<or>
     e = PanicSendOnClosedChannel \<or> e = PanicCloseOfClosedChannel"

text \<open>
  A result that keeps the room maps in order: a state that satisfies \<open>rooms_inv\<close>, or a
  stop that no channel caused.
\<close>

definition rooms_ok :: "error + Daemon \<Rightarrow> bool" where
  "rooms_ok res = (case res of Inl e \<Rightarrow> \<not> channel_error e | Inr s' \<Rightarrow> rooms_inv s')"

definition rooms_ok_flow :: "error + flow \<times> Daemon \<Rightarrow> bool" where
  "rooms_ok_flow res = rooms_ok (map_sum id snd res)"

text \<open>A result that keeps the clients in order, whenever it is a state.\<close>

definition clients_ok :: "error + Daemon \<Rightarrow> bool" where
  "clients_ok res = (case res of Inl e \<Rightarrow> True | Inr s' \<Rightarrow> clients_inv s')"

definition clients_ok_flow :: "error + flow \<times> Daemon \<Rightarrow> bool" where
  "clients_ok_flow res = clients_ok (map_sum id snd res)"

text \<open>The same rooms, channels and state keeper; only clients may differ.\<close>

definition same_rooms :: "Daemon \<Rightarrow> Daemon \<Rightarrow> bool" where
  "same_rooms s s' \<longleftrightarrow>
     roomHeap s' = roomHeap s \<and> rooms s' = rooms s \<and> roomSinks s' = roomSinks s \<and>
     chans s' = chans s \<and> nextRoom s' = nextRoom s \<and> nextChan s' = nextChan s \<and>
     stateSink s' = stateSink s \<and> finished s' = finished s"

text \<open>A result that left the rooms as they were, or a stop that no channel caused.\<close>

definition client_only :: "Daemon \<Rightarrow> error + Daemon \<Rightarrow> bool" where
  "client_only s res = (case res of Inl e \<Rightarrow> \<not> channel_error e | Inr s' \<Rightarrow> same_rooms s s')"

text \<open>What the first loop of a tick does to one client.\<close>

definition ticked :: "Env \<Rightarrow> int \<Rightarrow> int \<Rightarrow> Client \<Rightarrow> Client" where
  "ticked env now t x =
     (if recvTimestamp x + PingTimeout < now then x\<lparr>isClosed := True\<rparr>
      else if sendTimestamp x + PingThreshold < now then
        (if registered x
         then x\<lparr>outbox := outbox x @ [Msg (''PING :'' @ hostname env)], sendTimestamp := t\<rparr>
         else x\<lparr>isClosed := True\<rparr>)
      else x)"

section \<open>Example states\<close>

definition env0 :: Env where
  "env0 = \<lparr>hostname = ''localhost'', version = ''1.0'', motd = [], statedir = [], passwords = [],
           verbose = False, ReadFile = (\<lambda>_. None),
           RoomNameValid = (\<lambda>n. n \<noteq> [] \<and> hd n = CHR ''#'')\<rparr>"

definition client0 :: Client where
  "client0 = \<lparr>nickname = ''*'', username = [], realname = None, password = None, away = None,
              registered = False, recvTimestamp = 0, sendTimestamp = 0,
              remoteHost = Some ''10.0.0.1'', outbox = [], isClosed = False\<rparr>"

definition alice :: Client where
  "alice = client0\<lparr>nickname := ''alice'', username := ''alice'', realname := Some ''Alice'',
                   registered := True\<rparr>"

definition daemon0 :: Daemon where
  "daemon0 = \<lparr>clientHeap = (\<lambda>_. client0), clients = [], roomHeap = (\<lambda>_. NewRoom []),
              rooms = [], roomSinks = [], chans = (\<lambda>_. \<lparr>queue = [], chClosed = False\<rparr>),
              nextRoom = 0, nextChan = 0, stateSink = [], finished = False\<rparr>"

text \<open>Alice, registered, is client 1 and the only client.\<close>

definition daemon1 :: Daemon where
  "daemon1 = daemon0\<lparr>clientHeap := (\<lambda>_. client0)(1 := alice), clients := [Some 1]\<rparr>"

text \<open>
  Bob, client 2, has sent NICK but not USER.  Alice sits alone in the room \<^verbatim>\<open>#go\<close>,
  whose key is \<^verbatim>\<open>secret\<close>; the room \<^verbatim>\<open>#old\<close> is empty.
\<close>

definition bob :: Client where
  "bob = client0\<lparr>nickname := ''bob''\<rparr>"

definition daemon2 :: Daemon where
  "daemon2 = daemon1\<lparr>clientHeap := (\<lambda>_. client0)(1 := alice, 2 := bob),
                    clients := [Some 1, Some 2],
                    roomHeap := (\<lambda>_. NewRoom [])
                      (0 := \<lparr>name = ''#go'', topic = [], key = ''secret'', members = [Some 1]\<rparr>,
                       1 := NewRoom ''#old''),
                    rooms := [(''#go'', 0), (''#old'', 1)],
                    roomSinks := [(0, 0), (1, 1)],
                    nextRoom := 2, nextChan := 2\<rparr>"


text \<open>
  A passwords file is configured.  Carol, client 1, has sent PASS and NICK; her USER
  command comes next.
\<close>

definition env_pw :: Env where
  "env_pw = env0\<lparr>passwords := ''/etc/goircd.passwd''\<rparr>"

definition carol :: Client where
  "carol = client0\<lparr>nickname := ''carol'', password := Some ''pw''\<rparr>"

definition daemon4 :: Daemon where
  "daemon4 = daemon0\<lparr>clientHeap := (\<lambda>_. client0)(1 := carol), clients := [Some 1]\<rparr>"

definition user_carol :: ClientEvent where
  "user_carol = \<lparr>client = Some 1, eventType = EventMsg, text' = ''USER carol 0 * :Carol''\<rparr>"

text \<open>
  The passwords file holds another password for Carol, and Carol has given her user name
  as well.
\<close>

definition passwd_file :: string where
  "passwd_file = ''bob:x'' @ [CHR 0x0A] @ ''carol:other'' @ [CHR 0x0A]"

definition env_file :: Env where
  "env_file = env_pw\<lparr>ReadFile := (\<lambda>_. Some passwd_file)\<rparr>"

definition daemon5 :: Daemon where
  "daemon5 = daemon0\<lparr>clientHeap := (\<lambda>_. client0)
                      (1 := carol\<lparr>username := ''carol'', realname := Some ''Carol''\<rparr>),
                    clients := [Some 1]\<rparr>"

text \<open>Whether client \<open>c\<close> is registered once an iteration is over.\<close>

definition registered_of :: "error + Daemon \<Rightarrow> nat \<Rightarrow> error + bool" where
  "registered_of res c = map_sum id (\<lambda>s. registered (clientHeap s c)) res"

text \<open>
  The room \<open>nm\<close> is registered and carries what the state file \<open>buf\<close> gives: its first
  two lines as topic and key, or nothing when it has fewer than two lines.
\<close>

definition room_loaded :: "Daemon \<Rightarrow> string \<Rightarrow> string \<Rightarrow> bool" where
  "room_loaded s nm buf =
     (case map_of (rooms s) nm of
        None \<Rightarrow> False
      | Some r \<Rightarrow>
          map_of (roomSinks s) r \<noteq> None \<and> name (roomHeap s r) = nm \<and> members (roomHeap s r) = [] \<and>
          (let contents = split_on (CHR 0x0A) buf in
           if length contents < 2 then topic (roomHeap s r) = [] \<and> key (roomHeap s r) = []
           else topic (roomHeap s r) = contents ! 0 \<and> key (roomHeap s r) = contents ! 1))"

text \<open>Two state files: one with topic and key, one with a single line.\<close>

definition state_files :: "(string \<times> string option) list" where
  "state_files = [(''#a'', Some (''hello'' @ [CHR 0x0A] @ ''secret'' @ [CHR 0x0A])),
                  (''#b'', Some ''broken'')]"

text \<open>The room filed under \<open>nm\<close> once the state files are loaded.\<close>

definition room_of :: "error + Daemon \<Rightarrow> string \<Rightarrow> error + nat option" where
  "room_of res nm = map_sum id (\<lambda>s. map_of (rooms s) nm) res"

text \<open>The event of the ticker.\<close>

definition tick0 :: ClientEvent where
  "tick0 = \<lparr>client = None, eventType = EventTick, text' = []\<rparr>"

text \<open>What client \<open>c\<close> has been sent once an iteration is over.\<close>

definition outbox_of :: "error + Daemon \<Rightarrow> nat \<Rightarrow> error + reply list" where
  "outbox_of res c = map_sum id (\<lambda>s. outbox (clientHeap s c)) res"


section \<open>Basic facts\<close>

lemma split_on_not_Nil [simp]: "split_on sep s \<noteq> []"
  by (induction s) (auto split: list.splits)

lemma split_n_1 [simp]: "split_n sep (Suc 0) s = [s]"
  by (cases s) auto

lemma split_n_2_not_Nil [simp]: "split_n sep 2 s \<noteq> []"
  by (induction s) (auto split: list.splits)

lemma split_n_2_length: "length (split_n sep 2 s) = 1 \<or> length (split_n sep 2 s) = 2"
  by (induction s) (auto split: list.splits)

lemma clientHeap_upd_client [simp]:
  "clientHeap (upd_client c f s) = (clientHeap s)(c := f (clientHeap s c))"
  by (simp add: upd_client_def)

lemma upd_client_fields [simp]:
  "clients (upd_client c f s) = clients s"
  "roomHeap (upd_client c f s) = roomHeap s"
  "rooms (upd_client c f s) = rooms s"
  "roomSinks (upd_client c f s) = roomSinks s"
  "chans (upd_client c f s) = chans s"
  "nextRoom (upd_client c f s) = nextRoom s"
  "nextChan (upd_client c f s) = nextChan s"
  "stateSink (upd_client c f s) = stateSink s"
  "finished (upd_client c f s) = finished s"
  by (simp_all add: upd_client_def)

lemma same_rooms_refl [simp]: "same_rooms s s"
  by (simp add: same_rooms_def)

lemma same_rooms_trans: "same_rooms s t \<Longrightarrow> same_rooms t u \<Longrightarrow> same_rooms s u"
  by (simp add: same_rooms_def)

lemma same_rooms_upd_client [simp]: "same_rooms s (upd_client c f s)"
  by (simp add: same_rooms_def)

lemma rooms_inv_same: "same_rooms s s' \<Longrightarrow> rooms_inv s' = rooms_inv s"
  by (simp add: same_rooms_def rooms_inv_def)

section \<open>The stamp of the last message (C5)\<close>

text \<open>
  C5.  The claim: every event with a client refreshes that client's \<open>recvTimestamp\<close>, a
  PONG of a registered client in particular.  The code leaves the loop iteration of a
  PONG with \<^verbatim>\<open>continue\<close>, before the stamp at the end of the loop body: for Alice,
  last heard at time 0, a PONG handled at time 100 leaves the stamp at 0, while the PING
  beside it moves the stamp to 100.
\<close>

theorem pong_recvTimestamp_not_refreshed:
  "map_sum id (\<lambda>s. recvTimestamp (clientHeap s 1))
     (Processor env0 100 (\<lambda>_. 100)
        \<lparr>client = Some 1, eventType = EventMsg, text' = ''PONG''\<rparr> daemon1) = Inr 0
   \<and> map_sum id (\<lambda>s. recvTimestamp (clientHeap s 1))
     (Processor env0 100 (\<lambda>_. 100)
        \<lparr>client = Some 1, eventType = EventMsg, text' = ''PING x''\<rparr> daemon1) = Inr 100"
  by (simp add: Processor_def handle_event_def handle_msg_def dispatch_def daemon1_def
        daemon0_def alice_def client0_def ToUpper_def to_upper_char_def lower_letters_def
        upper_letters_def cmd_PING_def send_def)

section \<open>Frames and invariants of the basic operations\<close>

lemma for_each_inv:
  assumes "for_each f xs s = Inr s'" and "P s"
    and step: "\<And>x t t'. x \<in> set xs \<Longrightarrow> P t \<Longrightarrow> f x t = Inr t' \<Longrightarrow> P t'"
  shows "P s'"
  using assms(1,2) step
proof (induction xs arbitrary: s)
  case Nil
  then show ?case by simp
next
  case (Cons x xs)
  from Cons.prems(1) obtain t where t: "f x s = Inr t" "for_each f xs t = Inr s'"
    by (auto split: sum.splits)
  have "P t" using Cons.prems(3) [of x s t] Cons.prems(2) t(1) by simp
  moreover have "P u'" if "y \<in> set xs" "P u" "f y u = Inr u'" for y u u'
    using Cons.prems(3) [of y u u'] that by simp
  ultimately show ?case using Cons.IH [OF t(2)] by blast
qed

lemma for_each_err:
  assumes "for_each f xs s = Inl e" and "P s"
    and step: "\<And>x t t'. x \<in> set xs \<Longrightarrow> P t \<Longrightarrow> f x t = Inr t' \<Longrightarrow> P t'"
    and err: "\<And>x t e. x \<in> set xs \<Longrightarrow> P t \<Longrightarrow> f x t = Inl e \<Longrightarrow> Q e"
  shows "Q e"
  using assms(1,2) step err
proof (induction xs arbitrary: s)
  case Nil
  then show ?case by simp
next
  case (Cons x xs)
  show ?case
  proof (cases "f x s")
    case (Inl e')
    with Cons.prems(1) have "e' = e" by simp
    with Inl Cons.prems(2) Cons.prems(4) [of x s e] show ?thesis by simp
  next
    case (Inr t)
    with Cons.prems(1) have rest: "for_each f xs t = Inl e" by simp
    have "P t" using Cons.prems(3) [of x s t] Cons.prems(2) Inr by simp
    moreover have "P u'" if "y \<in> set xs" "P u" "f y u = Inr u'" for y u u'
      using Cons.prems(3) [of y u u'] that by simp
    moreover have "Q e'" if "y \<in> set xs" "P u" "f y u = Inl e'" for y u e'
      using Cons.prems(4) [of y u e'] that by simp
    ultimately show ?thesis using Cons.IH [OF rest] by blast
  qed
qed

lemma send_fields [simp]:
  "clients (send c r s) = clients s"
  "roomHeap (send c r s) = roomHeap s"
  "rooms (send c r s) = rooms s"
  "roomSinks (send c r s) = roomSinks s"
  "chans (send c r s) = chans s"
  "nextRoom (send c r s) = nextRoom s"
  "nextChan (send c r s) = nextChan s"
  "stateSink (send c r s) = stateSink s"
  "finished (send c r s) = finished s"
  by (simp_all add: send_def)

lemma Close_fields [simp]:
  "clients (Close c s) = clients s"
  "roomHeap (Close c s) = roomHeap s"
  "rooms (Close c s) = rooms s"
  "roomSinks (Close c s) = roomSinks s"
  "chans (Close c s) = chans s"
  "nextRoom (Close c s) = nextRoom s"
  "nextChan (Close c s) = nextChan s"
  "stateSink (Close c s) = stateSink s"
  "finished (Close c s) = finished s"
  by (simp_all add: Close_def)

lemma clientHeap_send:
  "clientHeap (send c r s) = (clientHeap s)(c := (clientHeap s c)\<lparr>outbox := outbox (clientHeap s c) @ [r]\<rparr>)"
  by (simp add: send_def upd_client_def)
lemma clientHeap_Close:
  "clientHeap (Close c s) = (clientHeap s)(c := (clientHeap s c)\<lparr>isClosed := True\<rparr>)"
  by (simp add: Close_def upd_client_def)

lemma client_inv_simps [simp]:
  "client_inv (x\<lparr>outbox := ob\<rparr>) = client_inv x"
  "client_inv (x\<lparr>away := aw\<rparr>) = client_inv x"
  "client_inv (x\<lparr>password := pw\<rparr>) = client_inv x"
  "client_inv (x\<lparr>realname := rn\<rparr>) = client_inv x"
  "client_inv (x\<lparr>recvTimestamp := t\<rparr>) = client_inv x"
  "client_inv (x\<lparr>sendTimestamp := t\<rparr>) = client_inv x"
  "client_inv (x\<lparr>isClosed := True\<rparr>)"
  "client_inv (x\<lparr>registered := True\<rparr>)"
  by (simp_all add: client_inv_def)

lemma clients_inv_upd_client:
  "clients_inv s \<Longrightarrow> client_inv (f (clientHeap s c)) \<Longrightarrow> clients_inv (upd_client c f s)"
  by (simp add: clients_inv_def upd_client_def)

lemma clients_inv_send [simp]: "clients_inv (send c r s) = clients_inv s"
proof
  assume "clients_inv (send c r s)"
  then have h: "client_inv (clientHeap (send c r s) a)" for a by (simp add: clients_inv_def)
  have "client_inv (clientHeap s a)" for a
    using h [of a] by (cases "a = c") (simp_all add: clientHeap_send)
  then show "clients_inv s" by (simp add: clients_inv_def)
next
  assume a: "clients_inv s"
  then have "client_inv (clientHeap s c)" by (simp add: clients_inv_def)
  with a show "clients_inv (send c r s)"
    unfolding send_def by (intro clients_inv_upd_client) simp_all
qed

lemma clients_inv_Close [simp]: "clients_inv s \<Longrightarrow> clients_inv (Close c s)"
  unfolding Close_def by (rule clients_inv_upd_client) simp_all

lemma same_rooms_send [simp]: "same_rooms s (send c r s)"
  by (simp add: same_rooms_def)

lemma same_rooms_Close [simp]: "same_rooms s (Close c s)"
  by (simp add: same_rooms_def)

lemma rooms_inv_upd_client [simp]: "rooms_inv (upd_client c f s) = rooms_inv s"
  by (simp add: rooms_inv_def)

lemma rooms_inv_send [simp]: "rooms_inv (send c r s) = rooms_inv s"
  by (simp add: rooms_inv_def)

lemma rooms_inv_Close [simp]: "rooms_inv (Close c s) = rooms_inv s"
  by (simp add: rooms_inv_def)

lemma chan_send_fields:
  assumes "chan_send ch ev s = Inr s'"
  shows "clientHeap s' = clientHeap s" "clients s' = clients s" "roomHeap s' = roomHeap s"
    "rooms s' = rooms s" "roomSinks s' = roomSinks s" "nextRoom s' = nextRoom s"
    "nextChan s' = nextChan s" "chClosed (chans s' a) = chClosed (chans s a)"
    "stateSink s' = stateSink s" "finished s' = finished s"
  using assms by (auto simp: chan_send_def split: option.splits if_splits)

lemma rooms_inv_chan_send: "chan_send ch ev s = Inr s' \<Longrightarrow> rooms_inv s' = rooms_inv s"
  by (simp add: rooms_inv_def chan_send_fields)

lemma clients_inv_chan_send: "chan_send ch ev s = Inr s' \<Longrightarrow> clients_inv s' = clients_inv s"
  by (simp add: clients_inv_def chan_send_fields)

lemma rooms_inv_sink:
  assumes "rooms_inv s" "map_of (rooms s) n = Some r"
  shows "\<exists>ch. map_of (roomSinks s) r = Some ch \<and> \<not> chClosed (chans s ch)"
proof -
  from assms(2) have "(n, r) \<in> set (rooms s)" by (rule map_of_SomeD)
  with assms(1) have "r \<in> fst ` set (roomSinks s)" by (auto simp: rooms_inv_def)
  then obtain ch where in_sinks: "(r, ch) \<in> set (roomSinks s)" by auto
  with assms(1) have "map_of (roomSinks s) r = Some ch" by (simp add: rooms_inv_def)
  moreover from in_sinks assms(1) have "\<not> chClosed (chans s ch)" by (auto simp: rooms_inv_def)
  ultimately show ?thesis by blast
qed

lemma chan_send_room_ok:
  assumes "rooms_inv s" "map_of (rooms s) n = Some r"
  shows "\<exists>s'. chan_send (map_of (roomSinks s) r) ev s = Inr s' \<and> rooms_inv s'"
proof -
  from rooms_inv_sink [OF assms] obtain ch
    where ch: "map_of (roomSinks s) r = Some ch" "\<not> chClosed (chans s ch)" by blast
  then obtain s' where s': "chan_send (map_of (roomSinks s) r) ev s = Inr s'"
    by (simp add: chan_send_def)
  with assms(1) show ?thesis by (auto simp: rooms_inv_chan_send)
qed

section \<open>Operations that touch clients only\<close>

lemma same_rooms_send_iff [simp]: "same_rooms s (send c r t) = same_rooms s t"
  by (simp add: same_rooms_def)

lemma same_rooms_Close_iff [simp]: "same_rooms s (Close c t) = same_rooms s t"
  by (simp add: same_rooms_def)

lemma same_rooms_upd_client_iff [simp]: "same_rooms s (upd_client c f t) = same_rooms s t"
  by (simp add: same_rooms_def)

lemma channel_error_simps [simp]:
  "\<not> channel_error Fatal" "\<not> channel_error PanicNilPointer" "\<not> channel_error PanicIndexOutOfRange"
  "channel_error BlockedOnNilChannel" "channel_error PanicCloseOfNilChannel"
  "channel_error PanicSendOnClosedChannel" "channel_error PanicCloseOfClosedChannel"
  by (simp_all add: channel_error_def)

lemma client_only_simps [simp]:
  "client_only s (Inr s') = same_rooms s s'"
  "client_only s (Inl e) = (\<not> channel_error e)"
  by (simp_all add: client_only_def)

lemma rooms_ok_simps [simp]:
  "rooms_ok (Inr s') = rooms_inv s'"
  "rooms_ok (Inl e) = (\<not> channel_error e)"
  by (simp_all add: rooms_ok_def)

lemma rooms_ok_flow_simps [simp]:
  "rooms_ok_flow (Inr (fl, s')) = rooms_inv s'"
  "rooms_ok_flow (Inl e) = (\<not> channel_error e)"
  by (simp_all add: rooms_ok_flow_def)

lemma client_only_rooms_ok: "rooms_inv s \<Longrightarrow> client_only s res \<Longrightarrow> rooms_ok res"
  by (cases res) (simp_all add: rooms_inv_same)

lemma find_client_error: "find_client P h ps = Inl e \<Longrightarrow> e = PanicNilPointer"
  by (induction P h ps rule: find_client.induct) (auto split: if_splits)

lemma client_only_SendLusers: "client_only s (SendLusers c s)"
  by (simp add: SendLusers_def split: option.splits)

lemma clients_inv_SendLusers: "clients_inv s \<Longrightarrow> SendLusers c s = Inr s' \<Longrightarrow> clients_inv s'"
  by (auto simp: SendLusers_def split: option.splits)

lemma same_rooms_fold_send: "same_rooms s (fold (\<lambda>l. send c (g l)) ls t) = same_rooms s t"
  by (induction ls arbitrary: t) simp_all

lemma clients_inv_fold_send: "clients_inv (fold (\<lambda>l. send c (g l)) ls t) = clients_inv t"
  by (induction ls arbitrary: t) simp_all

lemma same_rooms_SendMotd [simp]: "same_rooms s (SendMotd env c t) = same_rooms s t"
  by (simp add: SendMotd_def same_rooms_fold_send split: option.splits)

lemma clients_inv_SendMotd [simp]: "clients_inv (SendMotd env c t) = clients_inv t"
  by (simp add: SendMotd_def clients_inv_fold_send split: option.splits)

lemma same_rooms_SendList_fold:
  "same_rooms s (fold (\<lambda>r s'. case map_of (rooms s') r of None \<Rightarrow> s' | Some rm \<Rightarrow> send c (g r rm s') s') rs t)
     = same_rooms s t"
  by (induction rs arbitrary: t) (simp_all split: option.splits)

lemma clients_inv_SendList_fold:
  "clients_inv (fold (\<lambda>r s'. case map_of (rooms s') r of None \<Rightarrow> s' | Some rm \<Rightarrow> send c (g r rm s') s') rs t)
     = clients_inv t"
  by (induction rs arbitrary: t) (simp_all split: option.splits)

lemma same_rooms_SendList [simp]: "same_rooms s (SendList c cols t) = same_rooms s t"
  unfolding SendList_def Let_def by (simp add: same_rooms_SendList_fold)

lemma clients_inv_SendList [simp]: "clients_inv (SendList c cols t) = clients_inv t"
  unfolding SendList_def Let_def by (simp add: clients_inv_SendList_fold)

lemma subscriptions_of_error: "subscriptions_of s nick rs = Inl e \<Longrightarrow> e = PanicNilPointer"
  by (induction rs arbitrary: e) (auto split: option.splits sum.splits)

lemma client_only_whois_one: "client_only s (whois_one env c n s)"
  unfolding whois_one_def Let_def
  by (auto split: sum.splits option.splits dest: find_client_error subscriptions_of_error)

lemma clients_inv_whois_one: "clients_inv s \<Longrightarrow> whois_one env c n s = Inr s' \<Longrightarrow> clients_inv s'"
  unfolding whois_one_def Let_def
  by (auto split: sum.splits option.splits)


lemma client_only_for_each:
  assumes "\<And>x t. client_only t (f x t)"
  shows "client_only s (for_each f xs s)"
proof (cases "for_each f xs s")
  case (Inl e)
  have "\<not> channel_error e"
  proof (rule for_each_err [OF Inl, where P = "\<lambda>_. True" and Q = "\<lambda>e. \<not> channel_error e"])
    fix x t e' assume "f x t = Inl e'"
    with assms [of t x] show "\<not> channel_error e'" by simp
  qed simp_all
  with Inl show ?thesis by simp
next
  case (Inr s')
  have "same_rooms s s'"
  proof (rule for_each_inv [OF Inr, where P = "same_rooms s"])
    fix x t t' assume "same_rooms s t" "f x t = Inr t'"
    with assms [of t x] show "same_rooms s t'" by (auto intro: same_rooms_trans)
  qed simp
  with Inr show ?thesis by simp
qed

lemma client_only_SendWhois: "client_only s (SendWhois env c ns s)"
  unfolding SendWhois_def by (rule client_only_for_each) (rule client_only_whois_one)

lemma clients_inv_SendWhois:
  assumes "clients_inv s" "SendWhois env c ns s = Inr s'"
  shows "clients_inv s'"
  using assms(2) [unfolded SendWhois_def] assms(1)
  by (rule for_each_inv) (rule clients_inv_whois_one)

lemma register_command_frame:
  assumes "register_command c cmd cols s = Inr (fl, s1)"
  shows "same_rooms s s1" "clients s1 = clients s"
  using assms unfolding register_command_def Let_def
  by (auto split: if_splits sum.splits option.splits)

lemma register_command_error:
  "register_command c cmd cols s = Inl e \<Longrightarrow> e = PanicNilPointer"
  unfolding register_command_def Let_def
  by (auto split: if_splits sum.splits option.splits dest: find_client_error)

lemma password_denied_error: "password_denied nick pw es = Inl e \<Longrightarrow> e = PanicIndexOutOfRange"
  by (induction es) (auto simp: Let_def split: if_splits)

lemma same_rooms_reject [simp]: "same_rooms s (reject c t) = same_rooms s t"
  by (simp add: reject_def)

lemma clients_inv_reject [simp]: "clients_inv s \<Longrightarrow> clients_inv (reject c s)"
  by (simp add: reject_def)

lemma same_rooms_welcome_numerics [simp]:
  "same_rooms s (welcome_numerics env c t) = same_rooms s t"
  by (simp add: welcome_numerics_def)

lemma clients_inv_welcome_numerics [simp]:
  "clients_inv s \<Longrightarrow> clients_inv (welcome_numerics env c s)"
  by (simp add: welcome_numerics_def clients_inv_upd_client)

lemma client_only_welcome: "client_only s (welcome_client env c s)"
proof (cases "SendLusers c (welcome_numerics env c s)")
  case (Inl e)
  with client_only_SendLusers [of "welcome_numerics env c s" c] show ?thesis
    by (simp add: welcome_client_def)
next
  case (Inr s6)
  with client_only_SendLusers [of "welcome_numerics env c s" c]
  have "same_rooms (welcome_numerics env c s) s6" by simp
  moreover have "same_rooms s (welcome_numerics env c s)" by simp
  ultimately have "same_rooms s s6" by (blast intro: same_rooms_trans)
  with Inr show ?thesis by (simp add: welcome_client_def)
qed

lemma clients_inv_welcome:
  "clients_inv s \<Longrightarrow> welcome_client env c s = Inr s' \<Longrightarrow> clients_inv s'"
  by (auto simp: welcome_client_def split: sum.splits dest!: clients_inv_SendLusers [rotated])

lemma client_only_registration_check: "client_only s (registration_check env c s)"
  unfolding registration_check_def Let_def
  by (auto split: option.splits sum.splits bool.splits
      dest: password_denied_error simp: client_only_welcome)

lemma clients_inv_registration_check:
  "clients_inv s \<Longrightarrow> registration_check env c s = Inr s' \<Longrightarrow> clients_inv s'"
  unfolding registration_check_def Let_def
  by (auto split: if_splits option.splits sum.splits bool.splits dest: clients_inv_welcome)

lemma client_only_ClientRegister: "client_only s (ClientRegister env c cmd cols s)"
proof (cases "register_command c cmd cols s")
  case (Inl e)
  then show ?thesis by (auto simp: ClientRegister_def dest: register_command_error)
next
  case (Inr p)
  obtain fl s1 where p: "p = (fl, s1)" by (cases p)
  with Inr have frame: "same_rooms s s1" by (auto dest: register_command_frame)
  show ?thesis
  proof (cases fl)
    case Next
    have "client_only s1 (registration_check env c s1)" by (rule client_only_registration_check)
    with frame have "client_only s (registration_check env c s1)"
      by (cases "registration_check env c s1") (auto intro: same_rooms_trans)
    with Inr p Next show ?thesis by (simp add: ClientRegister_def)
  qed (use Inr p frame in \<open>simp_all add: ClientRegister_def\<close>)
qed


lemma register_command_Return:
  "register_command c cmd cols s = Inr (fl, s1) \<Longrightarrow> fl \<noteq> Next \<Longrightarrow> clients_inv s1 = clients_inv s"
  unfolding register_command_def Let_def
  by (auto split: if_splits sum.splits option.splits)

lemma register_command_others:
  "register_command c cmd cols s = Inr (fl, s1) \<Longrightarrow> a \<noteq> c \<Longrightarrow> clientHeap s1 a = clientHeap s a"
  unfolding register_command_def Let_def
  by (auto simp: clientHeap_send split: if_splits sum.splits option.splits)

lemma clientHeap_fold_send_others:
  "a \<noteq> c \<Longrightarrow> clientHeap (fold (\<lambda>l. send c (g l)) ls t) a = clientHeap t a"
  by (induction ls arbitrary: t) (simp_all add: clientHeap_send)

lemma registered_fold_send:
  "registered (clientHeap (fold (\<lambda>l. send c (g l)) ls t) a) = registered (clientHeap t a)"
  by (induction ls arbitrary: t) (simp_all add: clientHeap_send)

lemma clientHeap_SendMotd_others:
  "a \<noteq> c \<Longrightarrow> clientHeap (SendMotd env c s) a = clientHeap s a"
  by (simp add: SendMotd_def clientHeap_send clientHeap_fold_send_others split: option.splits)

lemma registered_SendMotd [simp]:
  "registered (clientHeap (SendMotd env c s) a) = registered (clientHeap s a)"
  by (simp add: SendMotd_def clientHeap_send registered_fold_send split: option.splits)

lemma send_identity [simp]:
  "registered (clientHeap (send c r s) a) = registered (clientHeap s a)"
  "isClosed (clientHeap (send c r s) a) = isClosed (clientHeap s a)"
  "nickname (clientHeap (send c r s) a) = nickname (clientHeap s a)"
  "username (clientHeap (send c r s) a) = username (clientHeap s a)"
  "recvTimestamp (clientHeap (send c r s) a) = recvTimestamp (clientHeap s a)"
  "sendTimestamp (clientHeap (send c r s) a) = sendTimestamp (clientHeap s a)"
  by (cases "a = c"; simp add: clientHeap_send)+

lemma SendLusers_others:
  "SendLusers c s = Inr s' \<Longrightarrow> a \<noteq> c \<Longrightarrow> clientHeap s' a = clientHeap s a"
  by (auto simp: SendLusers_def clientHeap_send split: option.splits)

lemma registered_SendLusers:
  "SendLusers c s = Inr s' \<Longrightarrow> registered (clientHeap s' a) = registered (clientHeap s a)"
  by (auto simp: SendLusers_def split: option.splits)

lemma welcome_numerics_others:
  "a \<noteq> c \<Longrightarrow> clientHeap (welcome_numerics env c s) a = clientHeap s a"
  by (simp add: welcome_numerics_def clientHeap_send)

lemma registered_welcome_numerics:
  "registered (clientHeap (welcome_numerics env c s) c)"
  by (simp add: welcome_numerics_def clientHeap_send)

lemma welcome_client_others:
  assumes "welcome_client env c s = Inr s'" "a \<noteq> c"
  shows "clientHeap s' a = clientHeap s a"
proof -
  from assms(1) obtain s6 where s6: "SendLusers c (welcome_numerics env c s) = Inr s6"
    and s': "s' = SendMotd env c s6"
    by (auto simp: welcome_client_def split: sum.splits)
  from assms(2) show ?thesis
    by (simp add: s' clientHeap_SendMotd_others SendLusers_others [OF s6] welcome_numerics_others)
qed

lemma welcome_client_registered:
  assumes "welcome_client env c s = Inr s'"
  shows "registered (clientHeap s' c)"
proof -
  from assms(1) obtain s6 where s6: "SendLusers c (welcome_numerics env c s) = Inr s6"
    and s': "s' = SendMotd env c s6"
    by (auto simp: welcome_client_def split: sum.splits)
  show ?thesis
    by (simp add: s' registered_SendLusers [OF s6] registered_welcome_numerics)
qed

lemma clients_inv_except:
  assumes "\<And>a. a \<noteq> c \<Longrightarrow> client_inv (clientHeap s a)" "client_inv (clientHeap s c)"
  shows "clients_inv s"
  unfolding clients_inv_def using assms by (metis)

lemma registration_check_cases:
  "registration_check env c s = Inr (reject c s) \<or>
   registration_check env c s = welcome_client env c s \<or>
   (registration_check env c s = Inr s \<and>
     (nickname (clientHeap s c) = ''*'' \<or> username (clientHeap s c) = [])) \<or>
   (\<exists>e. registration_check env c s = Inl e)"
proof (cases "nickname (clientHeap s c) \<noteq> ''*'' \<and> username (clientHeap s c) \<noteq> []")
  case False
  then show ?thesis by (auto simp: registration_check_def Let_def)
next
  case both: True
  show ?thesis
  proof (cases "passwords env = []")
    case True
    with both show ?thesis by (simp add: registration_check_def Let_def)
  next
    case pw: False
    show ?thesis
    proof (cases "password (clientHeap s c)")
      case None
      with both pw show ?thesis by (simp add: registration_check_def Let_def)
    next
      case (Some p)
      show ?thesis
      proof (cases "ReadFile env (passwords env)")
        case None
        with both pw Some show ?thesis by (simp add: registration_check_def Let_def)
      next
        case readable: (Some contents)
        show ?thesis
        proof (cases "password_denied (nickname (clientHeap s c)) p (split_on (CHR 0x0A) contents)")
          case (Inl e)
          with both pw Some readable show ?thesis by (simp add: registration_check_def Let_def)
        next
          case (Inr b)
          with both pw Some readable show ?thesis
            by (cases b) (simp_all add: registration_check_def Let_def)
        qed
      qed
    qed
  qed
qed

lemma registration_check_establishes:
  assumes others: "\<And>a. a \<noteq> c \<Longrightarrow> client_inv (clientHeap s a)"
    and res: "registration_check env c s = Inr s'"
  shows "clients_inv s'"
proof -
  have "registration_check env c s = Inr (reject c s) \<or>
        registration_check env c s = welcome_client env c s \<or>
        (registration_check env c s = Inr s \<and>
          (nickname (clientHeap s c) = ''*'' \<or> username (clientHeap s c) = [])) \<or>
        (\<exists>e. registration_check env c s = Inl e)"
    by (rule registration_check_cases)
  with res consider (rej) "s' = reject c s" | (wel) "welcome_client env c s = Inr s'"
    | (none) "s' = s" "nickname (clientHeap s c) = ''*'' \<or> username (clientHeap s c) = []"
    by auto
  then show ?thesis
  proof cases
    case rej
    show ?thesis
    proof (rule clients_inv_except [of c])
      fix a assume "a \<noteq> c"
      with others [of a] show "client_inv (clientHeap s' a)"
        by (simp add: rej reject_def clientHeap_send clientHeap_Close)
    next
      show "client_inv (clientHeap s' c)"
        by (simp add: rej reject_def clientHeap_send clientHeap_Close)
    qed
  next
    case wel
    show ?thesis
    proof (rule clients_inv_except [of c])
      fix a assume "a \<noteq> c"
      with others [of a] welcome_client_others [OF wel] show "client_inv (clientHeap s' a)" by simp
    next
      from welcome_client_registered [OF wel] show "client_inv (clientHeap s' c)"
        by (simp add: client_inv_def)
    qed
  next
    case none
    show ?thesis
    proof (rule clients_inv_except [of c])
      fix a assume "a \<noteq> c"
      with others [of a] none show "client_inv (clientHeap s' a)" by simp
    next
      from none show "client_inv (clientHeap s' c)" by (auto simp: client_inv_def)
    qed
  qed
qed

lemma clients_inv_ClientRegister:
  assumes inv: "clients_inv s" and res: "ClientRegister env c cmd cols s = Inr s'"
  shows "clients_inv s'"
proof -
  from res obtain fl s1 where rc: "register_command c cmd cols s = Inr (fl, s1)"
    by (auto simp: ClientRegister_def split: sum.splits)
  show ?thesis
  proof (cases "fl = Next")
    case True
    with res rc have chk: "registration_check env c s1 = Inr s'"
      by (simp add: ClientRegister_def)
    have "client_inv (clientHeap s1 a)" if "a \<noteq> c" for a
      using register_command_others [OF rc that] inv by (simp add: clients_inv_def)
    then show ?thesis using chk by (rule registration_check_establishes)
  next
    case False
    with res rc have "s' = s1" by (cases fl) (simp_all add: ClientRegister_def)
    with register_command_Return [OF rc False] inv show ?thesis by simp
  qed
qed

section \<open>Operations on rooms and channels\<close>

lemma update_fresh: "k \<notin> fst ` set al \<Longrightarrow> AList.update k v al = al @ [(k, v)]"
  by (induction al) auto

lemma upd_room_fields [simp]:
  "clientHeap (upd_room r f s) = clientHeap s"
  "clients (upd_room r f s) = clients s"
  "roomHeap (upd_room r f s) = (roomHeap s)(r := f (roomHeap s r))"
  "rooms (upd_room r f s) = rooms s"
  "roomSinks (upd_room r f s) = roomSinks s"
  "chans (upd_room r f s) = chans s"
  "nextRoom (upd_room r f s) = nextRoom s"
  "nextChan (upd_room r f s) = nextChan s"
  by (simp_all add: upd_room_def)

lemma StateSave_fields [simp]:
  "clientHeap (StateSave r s) = clientHeap s"
  "clients (StateSave r s) = clients s"
  "roomHeap (StateSave r s) = roomHeap s"
  "rooms (StateSave r s) = rooms s"
  "roomSinks (StateSave r s) = roomSinks s"
  "chans (StateSave r s) = chans s"
  "nextRoom (StateSave r s) = nextRoom s"
  "nextChan (StateSave r s) = nextChan s"
  by (simp_all add: StateSave_def)

lemma rooms_inv_StateSave [simp]: "rooms_inv (StateSave r s) = rooms_inv s"
  by (simp add: rooms_inv_def)

lemma clients_inv_StateSave [simp]: "clients_inv (StateSave r s) = clients_inv s"
  by (simp add: clients_inv_def)

lemma clients_inv_upd_room [simp]: "clients_inv (upd_room r f s) = clients_inv s"
  by (simp add: clients_inv_def)

lemma rooms_inv_upd_room:
  assumes "name (f (roomHeap s r)) = name (roomHeap s r)"
  shows "rooms_inv (upd_room r f s) = rooms_inv s"
proof -
  have "name (roomHeap (upd_room r f s) a) = name (roomHeap s a)" for a
    using assms by simp
  then show ?thesis by (simp add: rooms_inv_def)
qed

lemma RoomRegister_fields:
  "fst (RoomRegister nm s) = nextRoom s"
  "fst (snd (RoomRegister nm s)) = nextChan s"
  "clientHeap (snd (snd (RoomRegister nm s))) = clientHeap s"
  "clients (snd (snd (RoomRegister nm s))) = clients s"
  "roomHeap (snd (snd (RoomRegister nm s))) = (roomHeap s)(nextRoom s := NewRoom nm)"
  "rooms (snd (snd (RoomRegister nm s))) = AList.update nm (nextRoom s) (rooms s)"
  "roomSinks (snd (snd (RoomRegister nm s))) = AList.update (nextRoom s) (nextChan s) (roomSinks s)"
  "chans (snd (snd (RoomRegister nm s))) = (chans s)(nextChan s := \<lparr>queue = [], chClosed = False\<rparr>)"
  "nextRoom (snd (snd (RoomRegister nm s))) = Suc (nextRoom s)"
  "nextChan (snd (snd (RoomRegister nm s))) = Suc (nextChan s)"
  "stateSink (snd (snd (RoomRegister nm s))) = stateSink s"
  "finished (snd (snd (RoomRegister nm s))) = finished s"
  by (simp_all add: RoomRegister_def Let_def)

lemma rooms_inv_fresh:
  assumes "rooms_inv s"
  shows "nextRoom s \<notin> fst ` set (roomSinks s)" "nextChan s \<notin> snd ` set (roomSinks s)"
    "nextRoom s \<notin> snd ` set (rooms s)"
proof -
  have sinks: "r < nextRoom s \<and> ch < nextChan s" if "(r, ch) \<in> set (roomSinks s)" for r ch
    using assms that by (auto simp: rooms_inv_def)
  show a: "nextRoom s \<notin> fst ` set (roomSinks s)" using sinks by fastforce
  show "nextChan s \<notin> snd ` set (roomSinks s)" using sinks by fastforce
  have "r \<in> fst ` set (roomSinks s)" if "(n, r) \<in> set (rooms s)" for n r
    using assms that by (auto simp: rooms_inv_def)
  with a show "nextRoom s \<notin> snd ` set (rooms s)" by fastforce
qed

lemma rooms_inv_RoomRegister:
  assumes inv: "rooms_inv s" and new: "nm \<notin> fst ` set (rooms s)"
  shows "rooms_inv (snd (snd (RoomRegister nm s)))"
proof -
  let ?r = "nextRoom s" and ?ch = "nextChan s" and ?s1 = "snd (snd (RoomRegister nm s))"
  note fresh = rooms_inv_fresh [OF inv]
  have rooms1: "rooms ?s1 = rooms s @ [(nm, ?r)]"
    by (simp add: RoomRegister_fields update_fresh [OF new])
  have sinks1: "roomSinks ?s1 = roomSinks s @ [(?r, ?ch)]"
    by (simp add: RoomRegister_fields update_fresh [OF fresh(1)])
  have d1: "distinct (map fst (rooms ?s1))" using inv new by (simp add: rooms1 rooms_inv_def)
  have d2: "distinct (map fst (roomSinks ?s1))" using inv fresh(1) by (simp add: sinks1 rooms_inv_def)
  have d3: "distinct (map snd (roomSinks ?s1))" using inv fresh(2) by (simp add: sinks1 rooms_inv_def)
  have old_room: "roomHeap ?s1 r = roomHeap s r" if "r \<noteq> ?r" for r
    using that by (simp add: RoomRegister_fields(5))
  have old_chan: "chans ?s1 ch = chans s ch" if "ch \<noteq> ?ch" for ch
    using that by (simp add: RoomRegister_fields(8))
  have p4: "r \<in> fst ` set (roomSinks ?s1) \<and> name (roomHeap ?s1 r) = n"
    if "(n, r) \<in> set (rooms ?s1)" for n r
  proof (cases "(n, r) = (nm, ?r)")
    case True
    then show ?thesis by (simp add: sinks1 RoomRegister_fields(5) NewRoom_def)
  next
    case False
    with that have mem: "(n, r) \<in> set (rooms s)" by (auto simp: rooms1)
    with fresh(3) have "r \<noteq> ?r" by force
    with mem inv show ?thesis by (auto simp: sinks1 old_room rooms_inv_def)
  qed
  have p5: "(name (roomHeap ?s1 r), r) \<in> set (rooms ?s1) \<and> \<not> chClosed (chans ?s1 ch)
      \<and> r < nextRoom ?s1 \<and> ch < nextChan ?s1"
    if "(r, ch) \<in> set (roomSinks ?s1)" for r ch
  proof (cases "(r, ch) = (?r, ?ch)")
    case True
    then show ?thesis by (simp add: rooms1 RoomRegister_fields(5,8,9,10) NewRoom_def)
  next
    case False
    with that have mem: "(r, ch) \<in> set (roomSinks s)" by (auto simp: sinks1)
    with fresh(1,2) have ne: "r \<noteq> ?r" "ch \<noteq> ?ch" by force+
    from mem inv have "(name (roomHeap s r), r) \<in> set (rooms s)" "\<not> chClosed (chans s ch)"
      "r < nextRoom s" "ch < nextChan s" by (auto simp: rooms_inv_def)
    with ne show ?thesis by (simp add: rooms1 old_room old_chan RoomRegister_fields(9,10))
  qed
  show ?thesis
    unfolding rooms_inv_def using d1 d2 d3 p4 p5 by blast
qed


lemma join_find_room:
  assumes inv: "rooms_inv s" and look: "map_of (rooms s) room = Some r"
  shows "\<exists>ch. find (\<lambda>(roomExisting, roomSink). room = name (roomHeap s roomExisting)) (roomSinks s)
            = Some (r, ch)
          \<and> map_of (roomSinks s) r = Some ch \<and> \<not> chClosed (chans s ch)"
proof -
  let ?P = "\<lambda>(roomExisting, roomSink). room = name (roomHeap s roomExisting)"
  from look have in_rooms: "(room, r) \<in> set (rooms s)" by (rule map_of_SomeD)
  from rooms_inv_sink [OF inv look] obtain ch
    where ch: "map_of (roomSinks s) r = Some ch" "\<not> chClosed (chans s ch)" by blast
  then have in_sinks: "(r, ch) \<in> set (roomSinks s)" by (auto dest: map_of_SomeD)
  from inv in_rooms have "name (roomHeap s r) = room" by (auto simp: rooms_inv_def)
  with in_sinks have "\<exists>x. x \<in> set (roomSinks s) \<and> ?P x" by auto
  then obtain re rs where found: "find ?P (roomSinks s) = Some (re, rs)"
    by (cases "find ?P (roomSinks s)") (auto simp: find_None_iff)
  then have mem: "(re, rs) \<in> set (roomSinks s)" and nm: "room = name (roomHeap s re)"
    by (auto simp: find_Some_iff in_set_conv_nth)
  from inv mem have "(name (roomHeap s re), re) \<in> set (rooms s)" by (auto simp: rooms_inv_def)
  with nm have "(room, re) \<in> set (rooms s)" by simp
  moreover from inv have dr: "distinct (map fst (rooms s))" by (simp add: rooms_inv_def)
  ultimately have "re = r" using in_rooms by (meson eq_key_imp_eq_value)
  moreover from inv have "distinct (map fst (roomSinks s))" by (simp add: rooms_inv_def)
  ultimately have "rs = ch" using mem in_sinks by (meson eq_key_imp_eq_value)
  with found \<open>re = r\<close> ch show ?thesis by simp
qed

lemma join_find_none:
  assumes inv: "rooms_inv s"
    and none: "find (\<lambda>(roomExisting, roomSink). room = name (roomHeap s roomExisting)) (roomSinks s) = None"
  shows "room \<notin> fst ` set (rooms s)"
proof
  assume "room \<in> fst ` set (rooms s)"
  then obtain r where "(room, r) \<in> set (rooms s)" by auto
  with inv have "map_of (rooms s) room = Some r" by (simp add: rooms_inv_def)
  from join_find_room [OF inv this] none show False by auto
qed

lemma join_find_some:
  assumes inv: "rooms_inv s"
    and some: "find (\<lambda>(roomExisting, roomSink). room = name (roomHeap s roomExisting)) (roomSinks s)
                 = Some (r, ch)"
  shows "map_of (rooms s) room = Some r" "map_of (roomSinks s) r = Some ch" "\<not> chClosed (chans s ch)"
proof -
  from some have mem: "(r, ch) \<in> set (roomSinks s)" and nm: "room = name (roomHeap s r)"
    by (auto simp: find_Some_iff in_set_conv_nth)
  from inv mem nm have "(room, r) \<in> set (rooms s)" by (auto simp: rooms_inv_def)
  with inv show "map_of (rooms s) room = Some r" by (simp add: rooms_inv_def)
  from inv mem show "map_of (roomSinks s) r = Some ch" by (simp add: rooms_inv_def)
  from inv mem show "\<not> chClosed (chans s ch)" by (auto simp: rooms_inv_def)
qed


lemma rooms_ok_join_room:
  assumes inv: "rooms_inv s"
  shows "rooms_ok (join_room env c keys nroom s)"
proof (cases "RoomNameValid env (snd nroom)")
  case False
  with inv show ?thesis by (simp add: join_room_def Let_def)
next
  case valid: True
  let ?room = "snd nroom"
  let ?k = "join_key keys (fst nroom)"
  let ?P = "\<lambda>(roomExisting, roomSink). ?room = name (roomHeap s roomExisting)"
  show ?thesis
  proof (cases "find ?P (roomSinks s)")
    case None
    let ?s1 = "snd (snd (RoomRegister ?room s))"
    let ?s2 = "if ?k \<noteq> [] then StateSave (nextRoom s) (upd_room (nextRoom s) (\<lambda>x. x\<lparr>key := ?k\<rparr>) ?s1) else ?s1"
    have inv1: "rooms_inv ?s1"
      using inv join_find_none [OF inv None] by (rule rooms_inv_RoomRegister)
    have inv2: "rooms_inv ?s2" using inv1 by (simp add: rooms_inv_upd_room)
    have sink: "map_of (roomSinks ?s2) (nextRoom s) = Some (nextChan s)"
      by (simp add: RoomRegister_fields update_conv')
    then have "(nextRoom s, nextChan s) \<in> set (roomSinks ?s2)" by (rule map_of_SomeD)
    with inv2 have "\<not> chClosed (chans ?s2 (nextChan s))" unfolding rooms_inv_def by blast
    then obtain s3 where s3:
      "chan_send (Some (nextChan s)) \<lparr>client = Some c, eventType = EventNew, text' = []\<rparr> ?s2 = Inr s3"
      by (simp add: chan_send_def)
    have eq: "join_room env c keys nroom s = Inr s3"
      unfolding join_room_def Let_def using valid None s3
      by (cases "join_key keys (fst nroom) = []") (simp_all add: case_prod_beta RoomRegister_fields)
    from s3 inv2 have "rooms_inv s3" by (simp add: rooms_inv_chan_send)
    with eq show ?thesis by simp
  next
    case (Some p)
    obtain r ch where p: "p = (r, ch)" by (cases p)
    from join_find_some [OF inv Some [unfolded p]] have "\<not> chClosed (chans s ch)" by simp
    then obtain s3 where s3:
      "chan_send (Some ch) \<lparr>client = Some c, eventType = EventNew, text' = []\<rparr> s = Inr s3"
      by (simp add: chan_send_def)
    with inv have "rooms_inv s3" by (simp add: rooms_inv_chan_send)
    with inv valid Some p s3 show ?thesis
      by (simp add: join_room_def Let_def)
  qed
qed


lemma clients_inv_cong: "clientHeap s' = clientHeap s \<Longrightarrow> clients_inv s' = clients_inv s"
  by (simp add: clients_inv_def)

lemma clients_inv_join_room:
  assumes "clients_inv s" "join_room env c keys nroom s = Inr s'"
  shows "clients_inv s'"
proof -
  have "clientHeap s' = clientHeap s \<or> (\<exists>r. clientHeap s' = clientHeap (send c r s))"
    using assms(2) unfolding join_room_def Let_def
    by (auto simp: chan_send_fields RoomRegister_fields case_prod_beta
          split: if_splits option.splits dest!: chan_send_fields(1))
  with assms(1) show ?thesis
    by (metis clients_inv_cong clients_inv_send)
qed

lemma rooms_ok_for_each:
  assumes step: "\<And>x t. rooms_inv t \<Longrightarrow> rooms_ok (f x t)" and inv: "rooms_inv s"
  shows "rooms_ok (for_each f xs s)"
proof (cases "for_each f xs s")
  case (Inl e)
  have "\<not> channel_error e"
  proof (rule for_each_err [OF Inl, where P = rooms_inv and Q = "\<lambda>e. \<not> channel_error e"])
    show "rooms_inv s" by (rule inv)
  next
    fix x t t' assume "rooms_inv t" "f x t = Inr t'"
    with step [of t x] show "rooms_inv t'" by simp
  next
    fix x t e' assume "rooms_inv t" "f x t = Inl e'"
    with step [of t x] show "\<not> channel_error e'" by simp
  qed
  with Inl show ?thesis by simp
next
  case (Inr s')
  have "rooms_inv s'"
  proof (rule for_each_inv [OF Inr, where P = rooms_inv])
    show "rooms_inv s" by (rule inv)
  next
    fix x t t' assume "rooms_inv t" "f x t = Inr t'"
    with step [of t x] show "rooms_inv t'" by simp
  qed
  with Inr show ?thesis by simp
qed

lemma rooms_ok_HandlerJoin: "rooms_inv s \<Longrightarrow> rooms_ok (HandlerJoin env c cmd s)"
  unfolding HandlerJoin_def Let_def by (rule rooms_ok_for_each) (rule rooms_ok_join_room)

lemma clients_inv_HandlerJoin:
  assumes "clients_inv s" "HandlerJoin env c cmd s = Inr s'"
  shows "clients_inv s'"
  using assms(2) [unfolded HandlerJoin_def Let_def] assms(1)
  by (rule for_each_inv) (rule clients_inv_join_room)

lemma rooms_ok_flow_lift:
  "rooms_ok res \<Longrightarrow> rooms_ok_flow (case res of Inl e \<Rightarrow> Inl e | Inr s1 \<Rightarrow> Inr (fl, s1))"
  by (cases res) simp_all

lemma rooms_ok_chan_send:
  assumes "rooms_inv s" "map_of (rooms s) n = Some r"
  shows "rooms_ok (chan_send (map_of (roomSinks s) r) ev s)"
  using chan_send_room_ok [OF assms, of ev] by auto

lemma rooms_ok_cmd_JOIN: "rooms_inv s \<Longrightarrow> rooms_ok_flow (cmd_JOIN env c cols s)"
  unfolding cmd_JOIN_def by (simp add: rooms_ok_flow_lift rooms_ok_HandlerJoin)

lemma rooms_ok_cmd_MODE: "rooms_inv s \<Longrightarrow> rooms_ok_flow (cmd_MODE c cols s)"
  unfolding cmd_MODE_def Let_def
  by (simp add: rooms_ok_flow_lift rooms_ok_chan_send split: option.splits)

lemma rooms_ok_part_room: "rooms_inv s \<Longrightarrow> rooms_ok (part_room c room s)"
  unfolding part_room_def by (simp add: rooms_ok_chan_send split: option.splits)

lemma rooms_ok_cmd_PART: "rooms_inv s \<Longrightarrow> rooms_ok_flow (cmd_PART c cols s)"
  unfolding cmd_PART_def
  by (simp add: rooms_ok_flow_lift rooms_ok_for_each rooms_ok_part_room)

lemma rooms_ok_cmd_PRIVMSG: "rooms_inv s \<Longrightarrow> rooms_ok_flow (cmd_PRIVMSG c cmd cols s)"
  unfolding cmd_PRIVMSG_def Let_def
  by (auto simp: rooms_ok_flow_lift rooms_ok_chan_send split: option.splits sum.splits
        dest: find_client_error)

lemma rooms_ok_cmd_TOPIC: "rooms_inv s \<Longrightarrow> rooms_ok_flow (cmd_TOPIC c cols s)"
  unfolding cmd_TOPIC_def Let_def
  by (simp add: rooms_ok_flow_lift rooms_ok_chan_send split: option.splits)

lemma rooms_ok_cmd_WHO: "rooms_inv s \<Longrightarrow> rooms_ok_flow (cmd_WHO c cols s)"
  unfolding cmd_WHO_def Let_def
  by (simp add: rooms_ok_flow_lift rooms_ok_chan_send split: option.splits)

lemma rooms_ok_client_only_flow:
  "rooms_inv s \<Longrightarrow> client_only s res \<Longrightarrow>
   rooms_ok_flow (case res of Inl e \<Rightarrow> Inl e | Inr s1 \<Rightarrow> Inr (fl, s1))"
  by (rule rooms_ok_flow_lift) (rule client_only_rooms_ok)

lemma rooms_ok_cmd_WHOIS: "rooms_inv s \<Longrightarrow> rooms_ok_flow (cmd_WHOIS env c cols s)"
  unfolding cmd_WHOIS_def Let_def
  by (simp add: rooms_ok_client_only_flow client_only_SendWhois)

lemma rooms_ok_cmd_ISON: "rooms_inv s \<Longrightarrow> rooms_ok_flow (cmd_ISON c cols s)"
  unfolding cmd_ISON_def Let_def by (simp split: option.splits)

lemma rooms_inv_SendMotd [simp]: "rooms_inv (SendMotd env c s) = rooms_inv s"
  by (rule rooms_inv_same) simp

lemma rooms_inv_SendList [simp]: "rooms_inv (SendList c cols s) = rooms_inv s"
  by (rule rooms_inv_same) simp

lemma rooms_ok_dispatch: "rooms_inv s \<Longrightarrow> rooms_ok_flow (dispatch env c cmd cols s)"
  unfolding dispatch_def
  by (simp add: rooms_ok_cmd_JOIN rooms_ok_cmd_MODE rooms_ok_cmd_PART rooms_ok_cmd_PRIVMSG
        rooms_ok_cmd_TOPIC rooms_ok_cmd_WHO rooms_ok_cmd_WHOIS rooms_ok_cmd_ISON
        rooms_ok_client_only_flow client_only_SendLusers
        cmd_AWAY_def cmd_PING_def cmd_VERSION_def Let_def)

lemma rooms_ok_handle_msg: "rooms_inv s \<Longrightarrow> rooms_ok_flow (handle_msg env event s)"
  unfolding handle_msg_def Let_def
  by (simp add: rooms_ok_dispatch rooms_ok_client_only_flow client_only_ClientRegister
        split: option.splits)

section \<open>The tick\<close>

lemma clientHeap_tick_client:
  "clientHeap (tick_client env now timeNow c s)
     = (clientHeap s)(c := ticked env now (timeNow c) (clientHeap s c))"
  unfolding tick_client_def ticked_def Let_def
  by (simp add: clientHeap_send clientHeap_Close)

lemma tick_client_frame [simp]:
  "same_rooms s (tick_client env now timeNow c t) = same_rooms s t"
  "clients (tick_client env now timeNow c t) = clients t"
  unfolding tick_client_def Let_def by simp_all

lemma tick_clients_frame:
  "tick_clients env now timeNow ps s = Inr s' \<Longrightarrow> same_rooms s s' \<and> clients s' = clients s"
proof (induction ps arbitrary: s)
  case Nil
  then show ?case by simp
next
  case (Cons p ps)
  then show ?case
  proof (cases p)
    case None
    with Cons.prems show ?thesis by simp
  next
    case (Some c)
    with Cons.prems have "tick_clients env now timeNow ps (tick_client env now timeNow c s) = Inr s'"
      by simp
    from Cons.IH [OF this]
    have "same_rooms (tick_client env now timeNow c s) s'" "clients s' = clients s" by simp_all
    moreover have "same_rooms s (tick_client env now timeNow c s)" by simp
    ultimately show ?thesis by (blast intro: same_rooms_trans)
  qed
qed

lemma tick_clients_error: "tick_clients env now timeNow ps s = Inl e \<Longrightarrow> e = PanicNilPointer"
  by (induction env now timeNow ps s rule: tick_clients.induct) simp_all

lemma tick_clients_returns:
  "None \<notin> set ps \<Longrightarrow> \<exists>s'. tick_clients env now timeNow ps s = Inr s'"
  by (induction env now timeNow ps s rule: tick_clients.induct) simp_all

lemma tick_clients_heap:
  assumes "tick_clients env now timeNow ps s = Inr s'" "distinct ps"
  shows "clientHeap s' c
           = (if Some c \<in> set ps then ticked env now (timeNow c) (clientHeap s c) else clientHeap s c)"
  using assms
proof (induction ps arbitrary: s)
  case Nil
  then show ?case by simp
next
  case (Cons p ps)
  show ?case
  proof (cases p)
    case None
    with Cons.prems show ?thesis by simp
  next
    case (Some a)
    let ?t = "tick_client env now timeNow a s"
    from Cons.prems Some have rest: "tick_clients env now timeNow ps ?t = Inr s'" by simp
    from Cons.prems Some have notin: "Some a \<notin> set ps" and d: "distinct ps" by simp_all
    have ih: "clientHeap s' c
        = (if Some c \<in> set ps then ticked env now (timeNow c) (clientHeap ?t c) else clientHeap ?t c)"
      by (rule Cons.IH [OF rest d])
    show ?thesis
    proof (cases "c = a")
      case True
      with ih notin Some show ?thesis by (simp add: clientHeap_tick_client)
    next
      case False
      with ih Some show ?thesis by (simp add: clientHeap_tick_client)
    qed
  qed
qed

lemma client_inv_ticked: "client_inv x \<Longrightarrow> client_inv (ticked env now t x)"
  by (simp add: ticked_def)

lemma clients_inv_tick_client: "clients_inv s \<Longrightarrow> clients_inv (tick_client env now timeNow c s)"
  by (simp add: clients_inv_def clientHeap_tick_client client_inv_ticked)

lemma clients_inv_tick_clients:
  "clients_inv s \<Longrightarrow> tick_clients env now timeNow ps s = Inr s' \<Longrightarrow> clients_inv s'"
proof (induction ps arbitrary: s)
  case Nil
  then show ?case by simp
next
  case (Cons p ps)
  then show ?case by (cases p) (auto intro: clients_inv_tick_client)
qed

lemma delete_filter: "AList.delete k al = filter (\<lambda>p. fst p \<noteq> k) al"
  by (induction al) auto

lemma tick_room_keep:
  "\<not> (statedir env = [] \<and> members (roomHeap s (snd rnr)) = []) \<Longrightarrow> tick_room env rnr s = Inr s"
  by (auto simp: tick_room_def Let_def)

lemma tick_room_remove:
  assumes "statedir env = []" "members (roomHeap s r) = []" "map_of (roomSinks s) r = Some ch"
    "\<not> chClosed (chans s ch)"
  shows "tick_room env (rn, r) s
           = Inr (s\<lparr>rooms := AList.delete rn (rooms s),
                    chans := (chans s)(ch := (chans s ch)\<lparr>chClosed := True\<rparr>),
                    roomSinks := AList.delete r (roomSinks s)\<rparr>)"
  using assms by (simp add: tick_room_def Let_def chan_close_def)

lemma rooms_inv_remove:
  assumes inv: "rooms_inv s" and mem: "(rn, r) \<in> set (rooms s)"
    and sink: "map_of (roomSinks s) r = Some ch"
  shows "rooms_inv (s\<lparr>rooms := AList.delete rn (rooms s),
                      chans := (chans s)(ch := (chans s ch)\<lparr>chClosed := True\<rparr>),
                      roomSinks := AList.delete r (roomSinks s)\<rparr>)"
    (is "rooms_inv ?s1")
proof -
  from inv have dr: "distinct (map fst (rooms s))" and ds: "distinct (map fst (roomSinks s))"
    and dc: "distinct (map snd (roomSinks s))" by (simp_all add: rooms_inv_def)
  from sink have sink_mem: "(r, ch) \<in> set (roomSinks s)" by (rule map_of_SomeD)
  from inv mem have name_r: "name (roomHeap s r) = rn" by (auto simp: rooms_inv_def)
  have d1: "distinct (map fst (rooms ?s1))" using dr by (simp add: distinct_delete)
  have d2: "distinct (map fst (roomSinks ?s1))" using ds by (simp add: distinct_delete)
  have d3: "distinct (map snd (roomSinks ?s1))"
    using dc by (simp add: delete_filter distinct_map_filter)
  have p4: "r' \<in> fst ` set (roomSinks ?s1) \<and> name (roomHeap ?s1 r') = n"
    if "(n, r') \<in> set (rooms ?s1)" for n r'
  proof -
    from that have n: "n \<noteq> rn" and old: "(n, r') \<in> set (rooms s)" by (auto simp: delete_filter)
    from inv old have k: "r' \<in> fst ` set (roomSinks s)" and nm: "name (roomHeap s r') = n"
      by (auto simp: rooms_inv_def)
    from nm n name_r have "r' \<noteq> r" by auto
    with k have "r' \<in> fst ` set (roomSinks ?s1)" by (auto simp: delete_filter)
    with nm show ?thesis by simp
  qed
  have p5: "(name (roomHeap ?s1 r'), r') \<in> set (rooms ?s1) \<and> \<not> chClosed (chans ?s1 ch')
      \<and> r' < nextRoom ?s1 \<and> ch' < nextChan ?s1"
    if "(r', ch') \<in> set (roomSinks ?s1)" for r' ch'
  proof -
    from that have r': "r' \<noteq> r" and old: "(r', ch') \<in> set (roomSinks s)" by (auto simp: delete_filter)
    from inv old have in_rooms: "(name (roomHeap s r'), r') \<in> set (rooms s)"
      and opn: "\<not> chClosed (chans s ch')" and lt: "r' < nextRoom s" "ch' < nextChan s"
      by (auto simp: rooms_inv_def)
    have "name (roomHeap s r') \<noteq> rn"
    proof
      assume "name (roomHeap s r') = rn"
      with in_rooms have "(rn, r') \<in> set (rooms s)" by simp
      with mem dr have "r' = r" by (meson eq_key_imp_eq_value)
      with r' show False by simp
    qed
    with in_rooms have a: "(name (roomHeap ?s1 r'), r') \<in> set (rooms ?s1)"
      by (auto simp: delete_filter)
    have "ch' \<noteq> ch"
    proof
      assume "ch' = ch"
      with old sink_mem dc have "r' = r"
        by (metis distinct_map inj_on_def fst_conv snd_conv)
      with r' show False by simp
    qed
    with opn have "\<not> chClosed (chans ?s1 ch')" by simp
    with a lt show ?thesis by simp
  qed
  show ?thesis unfolding rooms_inv_def using d1 d2 d3 p4 p5 by blast
qed


lemma tick_rooms_keep_all:
  "statedir env \<noteq> [] \<Longrightarrow> for_each (tick_room env) xs s = Inr s"
  by (induction xs) (simp_all add: tick_room_keep)

lemma tick_rooms_gc:
  assumes sd: "statedir env = []"
  shows "rooms_inv s \<Longrightarrow> set xs \<subseteq> set (rooms s) \<Longrightarrow> distinct (map fst xs) \<Longrightarrow>
    \<exists>s'. for_each (tick_room env) xs s = Inr s' \<and> rooms_inv s' \<and>
      clientHeap s' = clientHeap s \<and> clients s' = clients s \<and> roomHeap s' = roomHeap s \<and>
      rooms s' = filter (\<lambda>p. \<not> (p \<in> set xs \<and> members (roomHeap s (snd p)) = [])) (rooms s) \<and>
      roomSinks s' = filter (\<lambda>q. \<not> (fst q \<in> snd ` set xs \<and> members (roomHeap s (fst q)) = []))
                       (roomSinks s) \<and>
      (\<forall>ch. queue (chans s' ch) = queue (chans s ch) \<and>
            (chClosed (chans s' ch) \<longleftrightarrow>
               chClosed (chans s ch) \<or>
               (\<exists>q \<in> set (roomSinks s). snd q = ch \<and> fst q \<in> snd ` set xs
                   \<and> members (roomHeap s (fst q)) = [])))"
proof (induction xs arbitrary: s)
  case Nil
  then show ?case by simp
next
  case (Cons x xs)
  obtain rn r where x: "x = (rn, r)" by (cases x)
  from Cons.prems x have mem: "(rn, r) \<in> set (rooms s)" and sub: "set xs \<subseteq> set (rooms s)"
    and fresh: "rn \<notin> fst ` set xs" and dxs: "distinct (map fst xs)" by auto
  note inv = Cons.prems(1)
  show ?case
  proof (cases "members (roomHeap s r) = []")
    case False
    then have step: "tick_room env x s = Inr s" by (simp add: x tick_room_keep)
    from Cons.IH [OF inv sub dxs] obtain s' where s':
      "for_each (tick_room env) xs s = Inr s'" "rooms_inv s'"
      "clientHeap s' = clientHeap s" "clients s' = clients s" "roomHeap s' = roomHeap s"
      "rooms s' = filter (\<lambda>p. \<not> (p \<in> set xs \<and> members (roomHeap s (snd p)) = [])) (rooms s)"
      "roomSinks s' = filter (\<lambda>q. \<not> (fst q \<in> snd ` set xs \<and> members (roomHeap s (fst q)) = []))
                       (roomSinks s)"
      "\<And>ch. queue (chans s' ch) = queue (chans s ch)"
      "\<And>ch. chClosed (chans s' ch) \<longleftrightarrow> chClosed (chans s ch) \<or>
               (\<exists>q \<in> set (roomSinks s). snd q = ch \<and> fst q \<in> snd ` set xs
                   \<and> members (roomHeap s (fst q)) = [])"
      by blast
    have r1: "rooms s' = filter (\<lambda>p. \<not> (p \<in> set (x # xs) \<and> members (roomHeap s (snd p)) = [])) (rooms s)"
      unfolding s'(6) using False by (intro filter_cong) (auto simp: x)
    have r2: "roomSinks s' = filter (\<lambda>q. \<not> (fst q \<in> snd ` set (x # xs) \<and> members (roomHeap s (fst q)) = []))
                       (roomSinks s)"
      unfolding s'(7) using False by (intro filter_cong) (auto simp: x)
    have r3: "chClosed (chans s' ch) \<longleftrightarrow> chClosed (chans s ch) \<or>
               (\<exists>q \<in> set (roomSinks s). snd q = ch \<and> fst q \<in> snd ` set (x # xs)
                   \<and> members (roomHeap s (fst q)) = [])" for ch
      unfolding s'(9) using False by (auto simp: x)
    from step s'(1) have "for_each (tick_room env) (x # xs) s = Inr s'" by simp
    with s'(2-5,8) r1 r2 r3 show ?thesis by blast
  next
    case dead: True
    from rooms_inv_sink [OF inv] mem inv obtain ch0
      where ch0: "map_of (roomSinks s) r = Some ch0" "\<not> chClosed (chans s ch0)"
      by (metis map_of_is_SomeI rooms_inv_def)
    let ?s1 = "s\<lparr>rooms := AList.delete rn (rooms s),
                  chans := (chans s)(ch0 := (chans s ch0)\<lparr>chClosed := True\<rparr>),
                  roomSinks := AList.delete r (roomSinks s)\<rparr>"
    have step: "tick_room env x s = Inr ?s1"
      unfolding x by (rule tick_room_remove [OF sd dead ch0])
    have inv1: "rooms_inv ?s1" by (rule rooms_inv_remove [OF inv mem ch0(1)])
    have sub1: "set xs \<subseteq> set (rooms ?s1)"
      using sub fresh by (auto simp: delete_filter)
    from Cons.IH [OF inv1 sub1 dxs] obtain s' where s':
      "for_each (tick_room env) xs ?s1 = Inr s'" "rooms_inv s'"
      "clientHeap s' = clientHeap ?s1" "clients s' = clients ?s1" "roomHeap s' = roomHeap ?s1"
      "rooms s' = filter (\<lambda>p. \<not> (p \<in> set xs \<and> members (roomHeap ?s1 (snd p)) = [])) (rooms ?s1)"
      "roomSinks s' = filter (\<lambda>q. \<not> (fst q \<in> snd ` set xs \<and> members (roomHeap ?s1 (fst q)) = []))
                       (roomSinks ?s1)"
      "\<And>ch. queue (chans s' ch) = queue (chans ?s1 ch)"
      "\<And>ch. chClosed (chans s' ch) \<longleftrightarrow> chClosed (chans ?s1 ch) \<or>
               (\<exists>q \<in> set (roomSinks ?s1). snd q = ch \<and> fst q \<in> snd ` set xs
                   \<and> members (roomHeap ?s1 (fst q)) = [])"
      by blast
    from inv have dr: "distinct (map fst (rooms s))" and ds: "distinct (map fst (roomSinks s))"
      by (simp_all add: rooms_inv_def)
    have key_rn: "fst p \<noteq> rn \<longleftrightarrow> p \<noteq> (rn, r)" if "p \<in> set (rooms s)" for p
      using that mem dr by (metis eq_key_imp_eq_value fst_conv prod.collapse)
    have key_r: "q = (r, ch0)" if "q \<in> set (roomSinks s)" "fst q = r" for q
      using that ch0(1) ds by (metis map_of_is_SomeI option.inject prod.collapse)
    have r1: "rooms s' = filter (\<lambda>p. \<not> (p \<in> set (x # xs) \<and> members (roomHeap s (snd p)) = [])) (rooms s)"
      unfolding s'(6) using dead key_rn
      by (simp add: delete_filter x) (intro filter_cong, auto)
    have r2: "roomSinks s' = filter (\<lambda>q. \<not> (fst q \<in> snd ` set (x # xs) \<and> members (roomHeap s (fst q)) = []))
                       (roomSinks s)"
      unfolding s'(7) using dead
      by (simp add: delete_filter x) (intro filter_cong, auto)
    have r3: "chClosed (chans s' ch) \<longleftrightarrow> chClosed (chans s ch) \<or>
               (\<exists>q \<in> set (roomSinks s). snd q = ch \<and> fst q \<in> snd ` set (x # xs)
                   \<and> members (roomHeap s (fst q)) = [])" for ch
    proof (cases "ch = ch0")
      case True
      have "(r, ch0) \<in> set (roomSinks s)" using ch0(1) by (rule map_of_SomeD)
      with dead have "\<exists>q \<in> set (roomSinks s). snd q = ch0 \<and> fst q \<in> snd ` set (x # xs)
                   \<and> members (roomHeap s (fst q)) = []" by (force simp: x)
      with True show ?thesis by (simp add: s'(9))
    next
      case False
      have "(\<exists>q \<in> set (roomSinks ?s1). snd q = ch \<and> fst q \<in> snd ` set xs
                   \<and> members (roomHeap ?s1 (fst q)) = [])
          \<longleftrightarrow> (\<exists>q \<in> set (roomSinks s). snd q = ch \<and> fst q \<in> snd ` set (x # xs)
                   \<and> members (roomHeap s (fst q)) = [])" (is "?L \<longleftrightarrow> ?R")
      proof
        assume ?L
        then obtain q where q: "q \<in> set (roomSinks ?s1)" "snd q = ch" "fst q \<in> snd ` set xs"
          "members (roomHeap ?s1 (fst q)) = []" by blast
        then have "q \<in> set (roomSinks s)" by (simp add: delete_filter)
        with q show ?R by (intro bexI [of _ q]) simp_all
      next
        assume ?R
        then obtain q where q: "q \<in> set (roomSinks s)" "snd q = ch"
          "fst q \<in> snd ` set (x # xs)" "members (roomHeap s (fst q)) = []" by blast
        have "fst q \<noteq> r"
        proof
          assume "fst q = r"
          from key_r [OF q(1) this] q(2) False show False by simp
        qed
        with q have "q \<in> set (roomSinks ?s1)" "fst q \<in> snd ` set xs"
          "members (roomHeap ?s1 (fst q)) = []" by (auto simp: delete_filter x)
        with q(2) show ?L by (intro bexI [of _ q]) simp_all
      qed
      with False show ?thesis by (simp add: s'(9))
    qed
    have r4: "queue (chans s' ch) = queue (chans s ch)" for ch
      by (simp add: s'(8))
    from step s'(1) have "for_each (tick_room env) (x # xs) s = Inr s'" by simp
    with s'(2-5) r1 r2 r3 r4 show ?thesis by simp
  qed
qed


lemma tick_rooms_ok:
  assumes inv: "rooms_inv s"
  shows "\<exists>s'. for_each (tick_room env) (rooms s) s = Inr s' \<and> rooms_inv s' \<and>
           clientHeap s' = clientHeap s \<and> clients s' = clients s"
proof (cases "statedir env = []")
  case True
  from inv have "distinct (map fst (rooms s))" by (simp add: rooms_inv_def)
  with tick_rooms_gc [OF True inv, of "rooms s"] show ?thesis by auto
next
  case False
  with inv show ?thesis by (simp add: tick_rooms_keep_all)
qed

lemma broadcast_ok:
  "rooms_inv s \<Longrightarrow> set chs \<subseteq> snd ` set (roomSinks s) \<Longrightarrow>
   \<exists>s'. for_each (\<lambda>sink. chan_send (Some sink) ev) chs s = Inr s' \<and> rooms_inv s' \<and>
     clientHeap s' = clientHeap s \<and> clients s' = clients s \<and> rooms s' = rooms s \<and>
     roomSinks s' = roomSinks s"
proof (induction chs arbitrary: s)
  case Nil
  then show ?case by simp
next
  case (Cons ch chs)
  from Cons.prems obtain r where "(r, ch) \<in> set (roomSinks s)" by auto
  with Cons.prems(1) have "\<not> chClosed (chans s ch)" by (auto simp: rooms_inv_def)
  then obtain s1 where s1: "chan_send (Some ch) ev s = Inr s1" by (simp add: chan_send_def)
  note f = chan_send_fields [OF s1]
  from Cons.prems(1) have inv1: "rooms_inv s1" by (simp add: rooms_inv_chan_send [OF s1])
  from Cons.prems(2) have "set chs \<subseteq> snd ` set (roomSinks s1)" by (simp add: f)
  from Cons.IH [OF inv1 this] s1 show ?case by (auto simp: f)
qed

lemma rooms_inv_clients_update [simp]: "rooms_inv (s\<lparr>clients := cs\<rparr>) = rooms_inv s"
  by (simp add: rooms_inv_def)

lemma rooms_inv_finished_update [simp]: "rooms_inv (s\<lparr>finished := b\<rparr>) = rooms_inv s"
  by (simp add: rooms_inv_def)

lemma rooms_ok_handle_event:
  assumes inv: "rooms_inv s"
  shows "rooms_ok_flow (handle_event env now timeNow event s)"
proof (cases "eventType event")
  case EventTick
  show ?thesis
  proof (cases "tick_clients env now timeNow (clients s) s")
    case (Inl e)
    with EventTick show ?thesis by (auto simp: handle_event_def dest: tick_clients_error)
  next
    case (Inr s1)
    from tick_clients_frame [OF Inr] have "same_rooms s s1" by simp
    with inv have "rooms_inv s1" by (simp add: rooms_inv_same)
    from tick_rooms_ok [OF this, of env] EventTick Inr show ?thesis
      by (auto simp: handle_event_def)
  qed
next
  case EventTerm
  from broadcast_ok [OF inv, of "map snd (roomSinks s)"
      "\<lparr>client = None, eventType = EventTerm, text' = []\<rparr>"]
  obtain s1 where "for_each (\<lambda>sink. chan_send (Some sink)
      \<lparr>client = None, eventType = EventTerm, text' = []\<rparr>) (map snd (roomSinks s)) s = Inr s1"
    "rooms_inv s1" by auto
  with EventTerm show ?thesis by (simp add: handle_event_def)
next
  case EventNew
  with inv show ?thesis by (simp add: handle_event_def)
next
  case EventDel
  let ?s0 = "s\<lparr>clients := removeAll (client event) (clients s)\<rparr>"
  from inv have "rooms_inv ?s0" by simp
  from broadcast_ok [OF this, of "map snd (roomSinks s)" event]
  obtain s1 where "for_each (\<lambda>sink. chan_send (Some sink) event) (map snd (roomSinks s)) ?s0 = Inr s1"
    "rooms_inv s1" by auto
  with EventDel show ?thesis by (simp add: handle_event_def)
next
  case EventMsg
  with inv show ?thesis by (simp add: handle_event_def rooms_ok_handle_msg)
qed (use inv in \<open>simp_all add: handle_event_def\<close>)

lemma rooms_ok_Processor:
  assumes inv: "rooms_inv s"
  shows "rooms_ok (Processor env now timeNow event s)"
proof (cases "handle_event env now timeNow event s")
  case (Inl e)
  with rooms_ok_handle_event [OF inv, of env now timeNow event] show ?thesis
    by (simp add: Processor_def)
next
  case (Inr p)
  obtain fl s1 where p: "p = (fl, s1)" by (cases p)
  with Inr rooms_ok_handle_event [OF inv, of env now timeNow event] have "rooms_inv s1" by simp
  with Inr p show ?thesis
    by (cases fl) (simp_all add: Processor_def split: option.splits)
qed

section \<open>Clients that have not registered stay incomplete or get closed\<close>

lemma clients_inv_away [simp]:
  "clients_inv (upd_client c (\<lambda>x. x\<lparr>away := a\<rparr>) s) = clients_inv s"
proof
  assume h: "clients_inv (upd_client c (\<lambda>x. x\<lparr>away := a\<rparr>) s)"
  have "client_inv (clientHeap s b)" for b
    using h [unfolded clients_inv_def, rule_format, of b] by (cases "b = c") simp_all
  then show "clients_inv s" by (simp add: clients_inv_def)
next
  assume "clients_inv s"
  then show "clients_inv (upd_client c (\<lambda>x. x\<lparr>away := a\<rparr>) s)"
    by (simp add: clients_inv_def)
qed

lemma clients_inv_stamp [simp]:
  "clients_inv s \<Longrightarrow> clients_inv (upd_client c (\<lambda>x. x\<lparr>recvTimestamp := t\<rparr>) s)"
  by (simp add: clients_inv_def)

lemma clients_inv_for_each:
  assumes "for_each f xs s = Inr s'" "clients_inv s"
    and "\<And>x t t'. clients_inv t \<Longrightarrow> f x t = Inr t' \<Longrightarrow> clients_inv t'"
  shows "clients_inv s'"
  using assms(1,2) by (rule for_each_inv) (rule assms(3))

lemma clients_inv_cmd_AWAY: "clients_inv s \<Longrightarrow> clients_inv (snd (cmd_AWAY c cols s))"
  by (simp add: cmd_AWAY_def)

lemma clients_inv_cmd_JOIN:
  "clients_inv s \<Longrightarrow> cmd_JOIN env c cols s = Inr (fl, s') \<Longrightarrow> clients_inv s'"
  by (auto simp: cmd_JOIN_def split: if_splits sum.splits dest: clients_inv_HandlerJoin)

lemma clients_inv_cmd_MODE:
  "clients_inv s \<Longrightarrow> cmd_MODE c cols s = Inr (fl, s') \<Longrightarrow> clients_inv s'"
  unfolding cmd_MODE_def Let_def
  by (auto split: if_splits sum.splits option.splits simp: clients_inv_chan_send)

lemma clients_inv_part_room:
  "clients_inv s \<Longrightarrow> part_room c room s = Inr s' \<Longrightarrow> clients_inv s'"
  unfolding part_room_def by (auto split: option.splits simp: clients_inv_chan_send)

lemma clients_inv_cmd_PART:
  "clients_inv s \<Longrightarrow> cmd_PART c cols s = Inr (fl, s') \<Longrightarrow> clients_inv s'"
  unfolding cmd_PART_def
  by (auto split: if_splits sum.splits elim: clients_inv_for_each intro: clients_inv_part_room)

lemma clients_inv_cmd_PRIVMSG:
  "clients_inv s \<Longrightarrow> cmd_PRIVMSG c cmd cols s = Inr (fl, s') \<Longrightarrow> clients_inv s'"
  unfolding cmd_PRIVMSG_def Let_def
  by (auto split: if_splits sum.splits option.splits simp: clients_inv_chan_send)

lemma clients_inv_cmd_TOPIC:
  "clients_inv s \<Longrightarrow> cmd_TOPIC c cols s = Inr (fl, s') \<Longrightarrow> clients_inv s'"
  unfolding cmd_TOPIC_def Let_def
  by (auto split: if_splits sum.splits option.splits simp: clients_inv_chan_send)

lemma clients_inv_cmd_WHO:
  "clients_inv s \<Longrightarrow> cmd_WHO c cols s = Inr (fl, s') \<Longrightarrow> clients_inv s'"
  unfolding cmd_WHO_def Let_def
  by (auto split: if_splits sum.splits option.splits simp: clients_inv_chan_send)

lemma clients_inv_cmd_WHOIS:
  "clients_inv s \<Longrightarrow> cmd_WHOIS env c cols s = Inr (fl, s') \<Longrightarrow> clients_inv s'"
  unfolding cmd_WHOIS_def Let_def
  by (auto split: if_splits sum.splits dest: clients_inv_SendWhois)

lemma clients_inv_cmd_ISON:
  "clients_inv s \<Longrightarrow> cmd_ISON c cols s = Inr (fl, s') \<Longrightarrow> clients_inv s'"
  unfolding cmd_ISON_def Let_def
  by (auto split: if_splits option.splits)


lemma clients_ok_simps [simp]:
  "clients_ok (Inr s') = clients_inv s'"
  "clients_ok (Inl e)"
  "clients_ok_flow (Inr (fl, s')) = clients_inv s'"
  "clients_ok_flow (Inl e)"
  by (simp_all add: clients_ok_def clients_ok_flow_def)

lemma clients_ok_flowI:
  "(\<And>fl s'. res = Inr (fl, s') \<Longrightarrow> clients_inv s') \<Longrightarrow> clients_ok_flow res"
  by (cases res) auto

lemma clients_ok_flow_lift:
  "(\<And>s'. res = Inr s' \<Longrightarrow> clients_inv s') \<Longrightarrow>
   clients_ok_flow (case res of Inl e \<Rightarrow> Inl e | Inr s1 \<Rightarrow> Inr (fl, s1))"
  by (cases res) auto

lemma clients_ok_dispatch:
  assumes inv: "clients_inv s"
  shows "clients_ok_flow (dispatch env c cmd cols s)"
proof -
  have 1: "clients_ok_flow (cmd_JOIN env c cols s)"
    by (rule clients_ok_flowI) (rule clients_inv_cmd_JOIN [OF inv])
  have 2: "clients_ok_flow (cmd_MODE c cols s)"
    by (rule clients_ok_flowI) (rule clients_inv_cmd_MODE [OF inv])
  have 3: "clients_ok_flow (cmd_PART c cols s)"
    by (rule clients_ok_flowI) (rule clients_inv_cmd_PART [OF inv])
  have 4: "clients_ok_flow (cmd_PRIVMSG c cmd cols s)"
    by (rule clients_ok_flowI) (rule clients_inv_cmd_PRIVMSG [OF inv])
  have 5: "clients_ok_flow (cmd_TOPIC c cols s)"
    by (rule clients_ok_flowI) (rule clients_inv_cmd_TOPIC [OF inv])
  have 6: "clients_ok_flow (cmd_WHO c cols s)"
    by (rule clients_ok_flowI) (rule clients_inv_cmd_WHO [OF inv])
  have 7: "clients_ok_flow (cmd_WHOIS env c cols s)"
    by (rule clients_ok_flowI) (rule clients_inv_cmd_WHOIS [OF inv])
  have 8: "clients_ok_flow (cmd_ISON c cols s)"
    by (rule clients_ok_flowI) (rule clients_inv_cmd_ISON [OF inv])
  have 9: "clients_ok_flow (Inr (cmd_AWAY c cols s))"
    using clients_inv_cmd_AWAY [OF inv, of c cols] by (cases "cmd_AWAY c cols s") simp
  have 10: "clients_ok_flow (case SendLusers c s of Inl e \<Rightarrow> Inl e | Inr s1 \<Rightarrow> Inr (Next, s1))"
    by (rule clients_ok_flow_lift) (rule clients_inv_SendLusers [OF inv])
  show ?thesis
    unfolding dispatch_def using inv
    by (simp add: 1 2 3 4 5 6 7 8 9 10 cmd_PING_def cmd_VERSION_def)
qed

lemma clients_ok_handle_msg:
  assumes inv: "clients_inv s"
  shows "clients_ok_flow (handle_msg env event s)"
proof -
  have "clients_ok_flow (case ClientRegister env c cmd cols s of
          Inl e \<Rightarrow> Inl e | Inr s1 \<Rightarrow> Inr (Continue, s1))" for c cmd cols
    by (rule clients_ok_flow_lift) (rule clients_inv_ClientRegister [OF inv])
  then show ?thesis
    unfolding handle_msg_def Let_def using inv
    by (simp add: clients_ok_dispatch split: option.splits)
qed

lemma clients_inv_fields_update [simp]:
  "clients_inv (s\<lparr>clients := cs\<rparr>) = clients_inv s"
  "clients_inv (s\<lparr>finished := b\<rparr>) = clients_inv s"
  by (simp_all add: clients_inv_def)

lemma clients_ok_handle_event:
  assumes inv: "clients_inv s"
  shows "clients_ok_flow (handle_event env now timeNow event s)"
proof (cases "eventType event")
  case EventTick
  show ?thesis
  proof (rule clients_ok_flowI)
    fix fl s' assume res: "handle_event env now timeNow event s = Inr (fl, s')"
    with EventTick obtain s1 where s1: "tick_clients env now timeNow (clients s) s = Inr s1"
      and s': "for_each (tick_room env) (rooms s1) s1 = Inr s'"
      by (auto simp: handle_event_def split: sum.splits)
    from inv s1 have "clients_inv s1" by (rule clients_inv_tick_clients)
    with s' show "clients_inv s'"
    proof (rule clients_inv_for_each)
      fix x t t' assume "clients_inv t" "tick_room env x t = Inr t'"
      then show "clients_inv t'"
        by (auto simp: tick_room_def Let_def chan_close_def clients_inv_def
              split: if_splits option.splits)
    qed
  qed
next
  case EventTerm
  show ?thesis
  proof (rule clients_ok_flowI)
    fix fl s' assume res: "handle_event env now timeNow event s = Inr (fl, s')"
    with EventTerm obtain s1 where s1: "for_each (\<lambda>sink. chan_send (Some sink)
        \<lparr>client = None, eventType = EventTerm, text' = []\<rparr>) (map snd (roomSinks s)) s = Inr s1"
      and s': "s' = s1\<lparr>finished := True\<rparr>"
      by (auto simp: handle_event_def split: sum.splits)
    from s1 inv have "clients_inv s1"
      by (rule clients_inv_for_each) (simp add: clients_inv_chan_send)
    with s' show "clients_inv s'" by simp
  qed
next
  case EventNew
  with inv show ?thesis by (simp add: handle_event_def)
next
  case EventDel
  show ?thesis
  proof (rule clients_ok_flowI)
    fix fl s' assume res: "handle_event env now timeNow event s = Inr (fl, s')"
    with EventDel have s1: "for_each (\<lambda>sink. chan_send (Some sink) event) (map snd (roomSinks s))
        (s\<lparr>clients := removeAll (client event) (clients s)\<rparr>) = Inr s'"
      by (auto simp: handle_event_def split: sum.splits)
    from s1 show "clients_inv s'"
      by (rule clients_inv_for_each) (simp_all add: inv clients_inv_chan_send)
  qed
next
  case EventMsg
  with inv show ?thesis by (simp add: handle_event_def clients_ok_handle_msg)
qed (use inv in \<open>simp_all add: handle_event_def\<close>)

lemma clients_inv_Processor:
  assumes inv: "clients_inv s" and res: "Processor env now timeNow event s = Inr s'"
  shows "clients_inv s'"
proof -
  from res obtain fl s1 where h: "handle_event env now timeNow event s = Inr (fl, s1)"
    by (auto simp: Processor_def split: sum.splits)
  with clients_ok_handle_event [OF inv, of env now timeNow event] have "clients_inv s1" by simp
  with res h show ?thesis
    by (cases fl) (auto simp: Processor_def split: option.splits)
qed

section \<open>The two room maps (C9)\<close>

lemma rooms_inv_daemon2: "rooms_inv daemon2"
  by (simp add: rooms_inv_def daemon2_def daemon1_def daemon0_def NewRoom_def)

text \<open>
  C9.  The maps \<open>rooms\<close> and \<open>roomSinks\<close> stay in one-to-one correspondence under every
  iteration of the daemon's loop: from a state that satisfies \<open>rooms_inv\<close>, a state that
  satisfies it again is reached, in which the rooms named by \<open>rooms\<close> are exactly the keys
  of \<open>roomSinks\<close> and no room is filed under two names; and when the daemon stops instead,
  it is never because a lookup in \<open>roomSinks\<close> gave no channel (or a closed one).
\<close>

theorem rooms_roomSinks_correspondence:
  assumes "rooms_inv s"
  shows "case Processor env now timeNow event s of
           Inr s' \<Rightarrow> rooms_inv s' \<and> snd ` set (rooms s') = fst ` set (roomSinks s')
                     \<and> distinct (map snd (rooms s'))
         | Inl e \<Rightarrow> \<not> channel_error e"
proof (cases "Processor env now timeNow event s")
  case (Inl e)
  with rooms_ok_Processor [OF assms, of env now timeNow event] show ?thesis by simp
next
  case (Inr s')
  with rooms_ok_Processor [OF assms, of env now timeNow event] have inv: "rooms_inv s'" by simp
  have "snd ` set (rooms s') = fst ` set (roomSinks s')"
  proof (intro equalityI subsetI)
    fix r assume "r \<in> snd ` set (rooms s')"
    then obtain n where "(n, r) \<in> set (rooms s')" by auto
    with inv show "r \<in> fst ` set (roomSinks s')" by (auto simp: rooms_inv_def)
  next
    fix r assume "r \<in> fst ` set (roomSinks s')"
    then obtain ch where "(r, ch) \<in> set (roomSinks s')" by auto
    with inv have "(name (roomHeap s' r), r) \<in> set (rooms s')" by (auto simp: rooms_inv_def)
    then show "r \<in> snd ` set (rooms s')" by force
  qed
  moreover have "distinct (map snd (rooms s'))"
  proof -
    have "inj_on snd (set (rooms s'))"
    proof (rule inj_onI)
      fix p q assume p: "p \<in> set (rooms s')" and q: "q \<in> set (rooms s')" and eq: "snd p = snd q"
      from inv p have "name (roomHeap s' (snd p)) = fst p" by (auto simp: rooms_inv_def)
      moreover from inv q have "name (roomHeap s' (snd q)) = fst q" by (auto simp: rooms_inv_def)
      ultimately show "p = q" using eq by (simp add: prod_eq_iff)
    qed
    moreover from inv have "distinct (rooms s')"
      by (simp add: rooms_inv_def distinct_map)
    ultimately show ?thesis by (simp add: distinct_map)
  qed
  ultimately show ?thesis using Inr inv by simp
qed

theorem rooms_roomSinks_correspondence_witness:
  "rooms_inv daemon2 \<and>
   (case Processor env0 100 (\<lambda>_. 100)
           \<lparr>client = Some 1, eventType = EventMsg, text' = ''JOIN #new''\<rparr> daemon2 of
      Inr s' \<Rightarrow> rooms_inv s' \<and> snd ` set (rooms s') = fst ` set (roomSinks s')
                \<and> distinct (map snd (rooms s'))
    | Inl e \<Rightarrow> \<not> channel_error e)"
  using rooms_roomSinks_correspondence [OF rooms_inv_daemon2, of env0 100 "\<lambda>_. 100"
      "\<lparr>client = Some 1, eventType = EventMsg, text' = ''JOIN #new''\<rparr>"]
    rooms_inv_daemon2
  by simp

section \<open>Commands before registration (C2)\<close>

text \<open>A connection that has just been accepted, with the nickname \<^verbatim>\<open>*\<close>, satisfies \<open>client_inv\<close>.\<close>

lemma client_inv_fresh: "nickname x = ''*'' \<Longrightarrow> client_inv x"
  by (simp add: client_inv_def)



section \<open>JOIN of an existing room (C1)\<close>



section \<open>The tick: PING, timeouts and empty rooms (C4, C7)\<close>

lemma tick_event:
  assumes inv: "rooms_inv s" and nonil: "None \<notin> set (clients s)"
    and tick: "eventType event = EventTick"
  shows "\<exists>s1 s2. tick_clients env now timeNow (clients s) s = Inr s1
           \<and> for_each (tick_room env) (rooms s1) s1 = Inr s2
           \<and> same_rooms s s1 \<and> clients s1 = clients s \<and> rooms_inv s1
           \<and> clientHeap s2 = clientHeap s1 \<and> clients s2 = clients s1
           \<and> Processor env now timeNow event s
               = Inr (case client event of None \<Rightarrow> s2
                      | Some c \<Rightarrow> upd_client c (\<lambda>x. x\<lparr>recvTimestamp := now\<rparr>) s2)"
proof -
  from tick_clients_returns [OF nonil] obtain s1
    where s1: "tick_clients env now timeNow (clients s) s = Inr s1" by blast
  from tick_clients_frame [OF s1] have frame: "same_rooms s s1" "clients s1 = clients s" by simp_all
  with inv have inv1: "rooms_inv s1" by (simp add: rooms_inv_same)
  from tick_rooms_ok [OF inv1, of env] obtain s2
    where s2: "for_each (tick_room env) (rooms s1) s1 = Inr s2"
      "clientHeap s2 = clientHeap s1" "clients s2 = clients s1" by blast
  from tick s1 s2(1) have "Processor env now timeNow event s
      = Inr (case client event of None \<Rightarrow> s2
             | Some c \<Rightarrow> upd_client c (\<lambda>x. x\<lparr>recvTimestamp := now\<rparr>) s2)"
    by (simp add: Processor_def handle_event_def)
  with s1 s2 frame inv1 show ?thesis by blast
qed

text \<open>
  C4.  A tick (an \<^verbatim>\<open>EventTick\<close>, which carries no client) treats every client of the
  registry as follows, and leaves the registry as it is.  A client last heard more than
  \<open>PingTimeout\<close> (180 s) ago is closed.  Otherwise, if its \<open>sendTimestamp\<close> is more than
  \<open>PingThreshold\<close> (90 s) old: a registered client is sent \<^verbatim>\<open>PING :<hostname>\<close> and its
  \<open>sendTimestamp\<close> becomes the time read at that moment; a client that is not
  registered is closed.  Otherwise nothing happens to it.  A client that is not registered
  is sent nothing.
\<close>

theorem tick_pings_and_timeouts:
  assumes inv: "rooms_inv s" and nonil: "None \<notin> set (clients s)" and dist: "distinct (clients s)"
    and tick: "eventType event = EventTick" "client event = None"
  shows "\<exists>s'. Processor env now timeNow event s = Inr s' \<and> clients s' = clients s \<and>
    (\<forall>c. Some c \<in> set (clients s) \<longrightarrow>
       (PingTimeout < now - recvTimestamp (clientHeap s c) \<longrightarrow>
          clientHeap s' c = (clientHeap s c)\<lparr>isClosed := True\<rparr>) \<and>
       (\<not> PingTimeout < now - recvTimestamp (clientHeap s c)
          \<and> PingThreshold < now - sendTimestamp (clientHeap s c) \<and> registered (clientHeap s c) \<longrightarrow>
          clientHeap s' c = (clientHeap s c)
            \<lparr>outbox := outbox (clientHeap s c) @ [Msg (''PING :'' @ hostname env)],
             sendTimestamp := timeNow c\<rparr>) \<and>
       (\<not> PingTimeout < now - recvTimestamp (clientHeap s c)
          \<and> PingThreshold < now - sendTimestamp (clientHeap s c) \<and> \<not> registered (clientHeap s c) \<longrightarrow>
          clientHeap s' c = (clientHeap s c)\<lparr>isClosed := True\<rparr>) \<and>
       (\<not> PingTimeout < now - recvTimestamp (clientHeap s c)
          \<and> \<not> PingThreshold < now - sendTimestamp (clientHeap s c) \<longrightarrow>
          clientHeap s' c = clientHeap s c) \<and>
       (\<not> registered (clientHeap s c) \<longrightarrow> outbox (clientHeap s' c) = outbox (clientHeap s c)))
    \<and> PingTimeout = 180 * 1000000000 \<and> PingThreshold = 90 * 1000000000"
proof -
  from tick_event [OF inv nonil tick(1), of env now timeNow] tick(2) obtain s1 s2
    where s1: "tick_clients env now timeNow (clients s) s = Inr s1"
      and s2: "clientHeap s2 = clientHeap s1" "clients s2 = clients s1" "clients s1 = clients s"
      and res: "Processor env now timeNow event s = Inr s2" by auto
  have heap: "clientHeap s2 c = ticked env now (timeNow c) (clientHeap s c)"
    if "Some c \<in> set (clients s)" for c
    using tick_clients_heap [OF s1 dist, of c] that by (simp add: s2)
  have "(PingTimeout < now - recvTimestamp x \<longrightarrow> ticked env now t x = x\<lparr>isClosed := True\<rparr>) \<and>
       (\<not> PingTimeout < now - recvTimestamp x \<and> PingThreshold < now - sendTimestamp x \<and> registered x \<longrightarrow>
          ticked env now t x = x\<lparr>outbox := outbox x @ [Msg (''PING :'' @ hostname env)],
                                  sendTimestamp := t\<rparr>) \<and>
       (\<not> PingTimeout < now - recvTimestamp x \<and> PingThreshold < now - sendTimestamp x \<and> \<not> registered x \<longrightarrow>
          ticked env now t x = x\<lparr>isClosed := True\<rparr>) \<and>
       (\<not> PingTimeout < now - recvTimestamp x \<and> \<not> PingThreshold < now - sendTimestamp x \<longrightarrow>
          ticked env now t x = x) \<and>
       (\<not> registered x \<longrightarrow> outbox (ticked env now t x) = outbox x)" for x t
    by (simp add: ticked_def less_diff_eq add.commute)
  with heap res s2 show ?thesis
    by (auto simp: PingTimeout_def PingThreshold_def)
qed


theorem tick_pings_and_timeouts_witness:
  "rooms_inv daemon2 \<and> None \<notin> set (clients daemon2) \<and> distinct (clients daemon2) \<and>
   eventType tick0 = EventTick \<and> client tick0 = None \<and>
   (\<exists>s'. Processor env0 100000000000 (\<lambda>_. 100000000001) tick0 daemon2 = Inr s' \<and>
      clientHeap s' 1 = alice\<lparr>outbox := [Msg ''PING :localhost''], sendTimestamp := 100000000001\<rparr> \<and>
      clientHeap s' 2 = bob\<lparr>isClosed := True\<rparr>)"
proof -
  have 1: "None \<notin> set (clients daemon2)" "distinct (clients daemon2)"
    "eventType tick0 = EventTick" "client tick0 = None"
    by (simp_all add: daemon2_def tick0_def)
  have 2: "clientHeap daemon2 1 = alice" "clientHeap daemon2 2 = bob"
    "Some 1 \<in> set (clients daemon2)" "Some 2 \<in> set (clients daemon2)"
    by (simp_all add: daemon2_def)
  have 3: "recvTimestamp alice = 0" "sendTimestamp alice = 0" "registered alice" "outbox alice = []"
    "recvTimestamp bob = 0" "sendTimestamp bob = 0" "\<not> registered bob"
    by (simp_all add: alice_def bob_def client0_def)
  from tick_pings_and_timeouts [OF rooms_inv_daemon2 1, of env0 100000000000 "\<lambda>_. 100000000001"]
  obtain s' where s': "Processor env0 100000000000 (\<lambda>_. 100000000001) tick0 daemon2 = Inr s'"
    and each: "\<And>c. Some c \<in> set (clients daemon2) \<Longrightarrow>
       (\<not> PingTimeout < 100000000000 - recvTimestamp (clientHeap daemon2 c)
          \<and> PingThreshold < 100000000000 - sendTimestamp (clientHeap daemon2 c)
          \<and> registered (clientHeap daemon2 c) \<longrightarrow>
          clientHeap s' c = (clientHeap daemon2 c)
            \<lparr>outbox := outbox (clientHeap daemon2 c) @ [Msg (''PING :'' @ hostname env0)],
             sendTimestamp := 100000000001\<rparr>) \<and>
       (\<not> PingTimeout < 100000000000 - recvTimestamp (clientHeap daemon2 c)
          \<and> PingThreshold < 100000000000 - sendTimestamp (clientHeap daemon2 c)
          \<and> \<not> registered (clientHeap daemon2 c) \<longrightarrow>
          clientHeap s' c = (clientHeap daemon2 c)\<lparr>isClosed := True\<rparr>)"
    by blast
  from each [OF 2(3)] each [OF 2(4)]
  have "clientHeap s' 1 = alice\<lparr>outbox := [Msg ''PING :localhost''], sendTimestamp := 100000000001\<rparr>"
    "clientHeap s' 2 = bob\<lparr>isClosed := True\<rparr>"
    by (simp_all add: 2 3 PingTimeout_def PingThreshold_def env0_def del: One_nat_def)
  with s' rooms_inv_daemon2 1 show ?thesis by blast
qed

text \<open>
  C7.  On a tick with no state directory, exactly the rooms without members leave \<open>rooms\<close>
  and \<open>roomSinks\<close>, and the channel of each of them is closed, the other channels being
  left as they are; with a state directory, both maps and all channels stay as they are.
\<close>

theorem tick_collects_empty_rooms:
  assumes inv: "rooms_inv s" and nonil: "None \<notin> set (clients s)"
    and tick: "eventType event = EventTick"
  shows "\<exists>s'. Processor env now timeNow event s = Inr s' \<and> roomHeap s' = roomHeap s \<and>
    (statedir env = [] \<longrightarrow>
       rooms s' = filter (\<lambda>(n, r). members (roomHeap s r) \<noteq> []) (rooms s) \<and>
       roomSinks s' = filter (\<lambda>(r, ch). members (roomHeap s r) \<noteq> []) (roomSinks s) \<and>
       (\<forall>(r, ch) \<in> set (roomSinks s).
          if members (roomHeap s r) = [] then chClosed (chans s' ch) else chans s' ch = chans s ch)) \<and>
    (statedir env \<noteq> [] \<longrightarrow>
       rooms s' = rooms s \<and> roomSinks s' = roomSinks s \<and> chans s' = chans s)"
proof -
  from tick_event [OF inv nonil tick, of env now timeNow] obtain s1 s2
    where s2: "for_each (tick_room env) (rooms s1) s1 = Inr s2"
      and frame: "same_rooms s s1" and inv1: "rooms_inv s1"
      and res: "Processor env now timeNow event s
               = Inr (case client event of None \<Rightarrow> s2
                      | Some c \<Rightarrow> upd_client c (\<lambda>x. x\<lparr>recvTimestamp := now\<rparr>) s2)"
    by blast
  let ?s' = "case client event of None \<Rightarrow> s2
             | Some c \<Rightarrow> upd_client c (\<lambda>x. x\<lparr>recvTimestamp := now\<rparr>) s2"
  have proj: "roomHeap ?s' = roomHeap s2" "rooms ?s' = rooms s2" "roomSinks ?s' = roomSinks s2"
    "chans ?s' = chans s2"
    by (simp_all split: option.splits)
  from frame have eq1: "roomHeap s1 = roomHeap s" "rooms s1 = rooms s" "roomSinks s1 = roomSinks s"
    "chans s1 = chans s" by (simp_all add: same_rooms_def)
  show ?thesis
  proof (cases "statedir env = []")
    case False
    with s2 have "s2 = s1" by (simp add: tick_rooms_keep_all)
    with False res proj eq1 show ?thesis by simp
  next
    case True
    from inv1 have d: "distinct (map fst (rooms s1))" "distinct (map snd (roomSinks s1))"
      by (simp_all add: rooms_inv_def)
    from tick_rooms_gc [OF True inv1 subset_refl d(1)] s2
    have heap: "roomHeap s2 = roomHeap s1"
      and r: "rooms s2 = filter (\<lambda>p. \<not> (p \<in> set (rooms s1) \<and> members (roomHeap s1 (snd p)) = []))
                (rooms s1)"
      and k: "roomSinks s2 = filter (\<lambda>q. \<not> (fst q \<in> snd ` set (rooms s1)
                \<and> members (roomHeap s1 (fst q)) = [])) (roomSinks s1)"
      and q: "\<And>ch. queue (chans s2 ch) = queue (chans s1 ch)"
      and c: "\<And>ch. chClosed (chans s2 ch) \<longleftrightarrow> chClosed (chans s1 ch) \<or>
               (\<exists>q \<in> set (roomSinks s1). snd q = ch \<and> fst q \<in> snd ` set (rooms s1)
                   \<and> members (roomHeap s1 (fst q)) = [])"
      by auto
    have filed: "fst q \<in> snd ` set (rooms s1)" if "q \<in> set (roomSinks s1)" for q
    proof -
      from inv1 that have "(name (roomHeap s1 (fst q)), fst q) \<in> set (rooms s1)"
        by (auto simp: rooms_inv_def)
      then show ?thesis by force
    qed
    have r': "rooms s2 = filter (\<lambda>(n, r). members (roomHeap s1 r) \<noteq> []) (rooms s1)"
      unfolding r by (intro filter_cong) auto
    have k': "roomSinks s2 = filter (\<lambda>(r, ch). members (roomHeap s1 r) \<noteq> []) (roomSinks s1)"
      unfolding k using filed by (intro filter_cong) auto
    have ch: "if members (roomHeap s1 r0) = [] then chClosed (chans s2 ch0)
              else chans s2 ch0 = chans s1 ch0"
      if mem: "(r0, ch0) \<in> set (roomSinks s1)" for r0 ch0
    proof (cases "members (roomHeap s1 r0) = []")
      case True
      with mem filed [OF mem] have "\<exists>q \<in> set (roomSinks s1). snd q = ch0
          \<and> fst q \<in> snd ` set (rooms s1) \<and> members (roomHeap s1 (fst q)) = []"
        by (intro bexI [of _ "(r0, ch0)"]) simp_all
      with True show ?thesis by (simp add: c)
    next
      case False
      have "\<not> (\<exists>q \<in> set (roomSinks s1). snd q = ch0
          \<and> fst q \<in> snd ` set (rooms s1) \<and> members (roomHeap s1 (fst q)) = [])"
      proof
        assume "\<exists>q \<in> set (roomSinks s1). snd q = ch0
          \<and> fst q \<in> snd ` set (rooms s1) \<and> members (roomHeap s1 (fst q)) = []"
        then obtain q where q: "q \<in> set (roomSinks s1)" "snd q = ch0"
          "members (roomHeap s1 (fst q)) = []" by blast
        from d(2) q(1,2) mem have "q = (r0, ch0)"
          by (metis distinct_map inj_on_def snd_conv)
        with q(3) False show False by simp
      qed
      then have "chClosed (chans s2 ch0) = chClosed (chans s1 ch0)" unfolding c by blast
      with q [of ch0] have "chans s2 ch0 = chans s1 ch0" by (intro Chan.equality) simp_all
      with False show ?thesis by simp
    qed
    from True res proj eq1 heap r' k' ch show ?thesis by (auto simp: case_prod_beta)
  qed
qed


theorem tick_collects_empty_rooms_witness:
  "rooms_inv daemon2 \<and> None \<notin> set (clients daemon2) \<and> eventType tick0 = EventTick \<and>
   (\<exists>s'. Processor env0 0 (\<lambda>_. 0) tick0 daemon2 = Inr s' \<and>
      rooms s' = [(''#go'', 0)] \<and> roomSinks s' = [(0, 0)] \<and>
      chClosed (chans s' 1) \<and> chans s' 0 = chans daemon2 0) \<and>
   (\<exists>s'. Processor (env0\<lparr>statedir := ''/var/state''\<rparr>) 0 (\<lambda>_. 0) tick0 daemon2 = Inr s' \<and>
      rooms s' = rooms daemon2 \<and> roomSinks s' = roomSinks daemon2)"
proof -
  have 1: "None \<notin> set (clients daemon2)" "eventType tick0 = EventTick"
    by (simp_all add: daemon2_def tick0_def)
  have 2: "statedir env0 = []" "statedir (env0\<lparr>statedir := ''/var/state''\<rparr>) \<noteq> []"
    by (simp_all add: env0_def)
  have 3: "rooms daemon2 = [(''#go'', 0), (''#old'', 1)]" "roomSinks daemon2 = [(0, 0), (1, 1)]"
    "members (roomHeap daemon2 0) \<noteq> []" "members (roomHeap daemon2 1) = []"
    by (simp_all add: daemon2_def NewRoom_def)
  from tick_collects_empty_rooms [OF rooms_inv_daemon2 1, of env0 0 "\<lambda>_. 0"]
  have a: "\<exists>s'. Processor env0 0 (\<lambda>_. 0) tick0 daemon2 = Inr s' \<and>
      rooms s' = [(''#go'', 0)] \<and> roomSinks s' = [(0, 0)] \<and>
      chClosed (chans s' 1) \<and> chans s' 0 = chans daemon2 0"
    by (simp add: 2 3 del: One_nat_def) blast
  from tick_collects_empty_rooms [OF rooms_inv_daemon2 1, of "env0\<lparr>statedir := ''/var/state''\<rparr>" 0 "\<lambda>_. 0"]
  have b: "\<exists>s'. Processor (env0\<lparr>statedir := ''/var/state''\<rparr>) 0 (\<lambda>_. 0) tick0 daemon2 = Inr s' \<and>
      rooms s' = rooms daemon2 \<and> roomSinks s' = roomSinks daemon2"
    using 2(2) by auto
  from a b rooms_inv_daemon2 1 show ?thesis by blast
qed

section \<open>ISON (C6)\<close>

lemma to_lower_char_idem: "to_lower_char (to_lower_char c) = to_lower_char c"
  by (simp add: to_lower_char_def upper_letters_def lower_letters_def)

lemma ToLower_idem: "ToLower (ToLower s) = ToLower s"
  by (simp add: ToLower_def to_lower_char_idem)

lemma those_Some: "None \<notin> set xs \<Longrightarrow> those xs = Some (map the xs)"
proof (induction xs)
  case Nil
  then show ?case by simp
next
  case (Cons x xs)
  then show ?case by (cases x) auto
qed

lemma set_map_the:
  "None \<notin> set xs \<Longrightarrow> q \<in> set (map f (map the xs)) \<longleftrightarrow> (\<exists>a. Some a \<in> set xs \<and> f a = q)"
proof (induction xs)
  case Nil
  then show ?case by simp
next
  case (Cons x xs)
  then show ?case by (cases x) auto
qed

lemma dispatch_ISON: "dispatch env c ''ISON'' cols s = cmd_ISON c cols s"
  by (simp add: dispatch_def)

text \<open>
  C6, as amended.  A registered client that sends ISON with a non-empty argument whose
  names are written in lower case gets one reply, numeric 303, and the iteration stamps
  it.  The reply lists, in the order of the query, exactly the queried names that are,
  compared without regard to case, the nickname of a client in the registry, whether that
  client is registered or not.  (Nicknames are stored in lower case:
  \<open>register_command_lowercase\<close>.)
\<close>

theorem ison_reply:
  assumes reg: "registered (clientHeap s c)" and nonil: "None \<notin> set (clients s)"
    and line: "split_n CHR '' '' 2 line = [w, arg]" "ToUpper w = ''ISON''" "arg \<noteq> []"
    and lower_q: "\<forall>q \<in> set (split_on CHR '' '' arg). ToLower q = q"
    and lower_n: "\<forall>a. Some a \<in> set (clients s) \<longrightarrow>
                    ToLower (nickname (clientHeap s a)) = nickname (clientHeap s a)"
  shows "Processor env now timeNow \<lparr>client = Some c, eventType = EventMsg, text' = line\<rparr> s
     = Inr (upd_client c (\<lambda>x. x\<lparr>recvTimestamp := now\<rparr>)
          (send c (ReplyNicknamed ''303''
             [Join (filter (\<lambda>q. \<exists>a. Some a \<in> set (clients s)
                                  \<and> ToLower (nickname (clientHeap s a)) = ToLower q)
                      (split_on CHR '' '' arg))]) s))"
proof -
  let ?known = "\<lambda>q. \<exists>a. Some a \<in> set (clients s) \<and> ToLower (nickname (clientHeap s a)) = ToLower q"
  have "filter (\<lambda>nick. nick \<in> set (map (\<lambda>a. nickname (clientHeap s a)) (map the (clients s))))
          (split_on CHR '' '' arg) = filter ?known (split_on CHR '' '' arg)"
  proof (rule filter_cong [OF refl])
    fix q assume q: "q \<in> set (split_on CHR '' '' arg)"
    have "q \<in> set (map (\<lambda>a. nickname (clientHeap s a)) (map the (clients s)))
        \<longleftrightarrow> (\<exists>a. Some a \<in> set (clients s) \<and> nickname (clientHeap s a) = q)"
      by (rule set_map_the [OF nonil])
    also have "\<dots> \<longleftrightarrow> ?known q" using lower_q q lower_n by auto
    finally show "q \<in> set (map (\<lambda>a. nickname (clientHeap s a)) (map the (clients s))) \<longleftrightarrow> ?known q" .
  qed
  then have "cmd_ISON c [w, arg] s
      = Inr (Next, send c (ReplyNicknamed ''303'' [Join (filter ?known (split_on CHR '' '' arg))]) s)"
    using line(3) by (simp add: cmd_ISON_def those_Some [OF nonil])
  then have "handle_msg env \<lparr>client = Some c, eventType = EventMsg, text' = line\<rparr> s
      = Inr (Next, send c (ReplyNicknamed ''303'' [Join (filter ?known (split_on CHR '' '' arg))]) s)"
    using reg line(1,2) by (simp add: handle_msg_def dispatch_ISON)
  then show ?thesis by (simp add: Processor_def handle_event_def)
qed


lemma register_command_lowercase:
  assumes "register_command c cmd cols s = Inr (fl, s1)"
    and "ToLower (nickname (clientHeap s a)) = nickname (clientHeap s a)"
  shows "ToLower (nickname (clientHeap s1 a)) = nickname (clientHeap s1 a)"
  using assms unfolding register_command_def Let_def
  by (auto simp: ToLower_idem split: if_splits sum.splits option.splits)

text \<open>The definitions that evaluate one iteration on the example states.\<close>

lemmas eval_defs = Processor_def handle_event_def handle_msg_def dispatch_def
  daemon2_def daemon1_def daemon0_def alice_def bob_def client0_def env0_def NewRoom_def
  ToUpper_def to_upper_char_def ToLower_def to_lower_char_def lower_letters_def upper_letters_def
  send_def upd_client_def outbox_of_def

text \<open>
  C6, as stated, fails: Bob has sent NICK only and is not registered, yet \<^verbatim>\<open>ISON bob\<close>
  lists him; and \<^verbatim>\<open>ISON Alice\<close> does not list Alice, who is registered as \<^verbatim>\<open>alice\<close>.
\<close>

theorem ison_counterexample:
  "\<not> registered (clientHeap daemon2 2) \<and>
   outbox_of (Processor env0 100 (\<lambda>_. 100)
       \<lparr>client = Some 1, eventType = EventMsg, text' = ''ISON bob''\<rparr> daemon2) 1
     = Inr [ReplyNicknamed ''303'' [''bob'']] \<and>
   registered (clientHeap daemon2 1) \<and> nickname (clientHeap daemon2 1) = ''alice'' \<and>
   outbox_of (Processor env0 100 (\<lambda>_. 100)
       \<lparr>client = Some 1, eventType = EventMsg, text' = ''ISON Alice''\<rparr> daemon2) 1
     = Inr [ReplyNicknamed ''303'' [[]]]"
  by (simp add: eval_defs cmd_ISON_def)

theorem ison_reply_witness:
  "registered (clientHeap daemon2 1) \<and> None \<notin> set (clients daemon2) \<and>
   split_n CHR '' '' 2 ''ison bob alice carol'' = [''ison'', ''bob alice carol''] \<and>
   ToUpper ''ison'' = ''ISON'' \<and>
   split_on CHR '' '' ''bob alice carol'' = [''bob'', ''alice'', ''carol''] \<and>
   ToLower ''bob'' = ''bob'' \<and> ToLower ''alice'' = ''alice'' \<and> ToLower ''carol'' = ''carol'' \<and>
   map (\<lambda>a. nickname (clientHeap daemon2 a)) [1, 2] = [''alice'', ''bob''] \<and>
   outbox_of (Processor env0 100 (\<lambda>_. 100)
       \<lparr>client = Some 1, eventType = EventMsg, text' = ''ison bob alice carol''\<rparr> daemon2) 1
     = Inr [ReplyNicknamed ''303'' [''bob alice'']]"
proof -
  have 1: "registered (clientHeap daemon2 1)" "None \<notin> set (clients daemon2)"
    by (simp_all add: daemon2_def alice_def)
  have 2: "split_n CHR '' '' 2 ''ison bob alice carol'' = [''ison'', ''bob alice carol'']"
    "ToUpper ''ison'' = ''ISON''" "''bob alice carol'' \<noteq> []"
    by (simp_all add: ToUpper_def to_upper_char_def lower_letters_def upper_letters_def)
  have 3: "\<forall>q \<in> set (split_on CHR '' '' ''bob alice carol''). ToLower q = q"
    by (simp add: ToLower_def to_lower_char_def lower_letters_def upper_letters_def)
  have 4: "\<forall>a. Some a \<in> set (clients daemon2) \<longrightarrow>
          ToLower (nickname (clientHeap daemon2 a)) = nickname (clientHeap daemon2 a)"
    by (simp add: daemon2_def alice_def bob_def client0_def
          ToLower_def to_lower_char_def lower_letters_def upper_letters_def)
  have 5: "filter (\<lambda>q. \<exists>a. Some a \<in> set (clients daemon2)
              \<and> ToLower (nickname (clientHeap daemon2 a)) = ToLower q)
             (split_on CHR '' '' ''bob alice carol'') = [''bob'', ''alice'']"
    by (simp add: daemon2_def alice_def bob_def client0_def
          ToLower_def to_lower_char_def lower_letters_def upper_letters_def)
       (rule exI [of _ 2], simp)
  have 6: "outbox (clientHeap daemon2 1) = []"
    by (simp add: daemon2_def alice_def client0_def)
  note r = ison_reply [OF 1 2 3 4, of env0 100 "\<lambda>_. 100", unfolded 5]
  have 7: "outbox_of (Processor env0 100 (\<lambda>_. 100)
       \<lparr>client = Some 1, eventType = EventMsg, text' = ''ison bob alice carol''\<rparr> daemon2) 1
     = Inr [ReplyNicknamed ''303'' [''bob alice'']]"
    unfolding r outbox_of_def by (simp add: 6 clientHeap_send del: One_nat_def)
  have 8: "split_on CHR '' '' ''bob alice carol'' = [''bob'', ''alice'', ''carol'']"
    "ToLower ''bob'' = ''bob''" "ToLower ''alice'' = ''alice''" "ToLower ''carol'' = ''carol''"
    "map (\<lambda>a. nickname (clientHeap daemon2 a)) [1, 2] = [''alice'', ''bob'']"
    by (simp_all add: daemon2_def alice_def bob_def client0_def
          ToLower_def to_lower_char_def lower_letters_def upper_letters_def)
  from 1 2(1,2) 7 8 show ?thesis by blast
qed

section \<open>PRIVMSG and NOTICE to a room with a capital letter (C10)\<close>











section \<open>The passwords file (C3)\<close>

lemma split_on_length: "sep \<in> set s \<Longrightarrow> 2 \<le> length (split_on sep s)"
proof (induction s)
  case Nil
  then show ?case by simp
next
  case (Cons a s)
  show ?case
  proof (cases "a = sep")
    case True
    have "split_on sep s \<noteq> []" by simp
    then have "1 \<le> length (split_on sep s)" by (cases "split_on sep s") simp_all
    with True show ?thesis by simp
  next
    case False
    with Cons.prems have "sep \<in> set s" by simp
    from Cons.IH [OF this] False show ?thesis by (auto split: list.splits)
  qed
qed

lemma password_denied_wellformed:
  assumes "\<forall>e \<in> set es. e \<noteq> [] \<longrightarrow> CHR '':'' \<in> set e"
  shows "password_denied nick pw es
           = Inr (\<exists>e \<in> set es. e \<noteq> [] \<and> hd (split_on CHR '':'' e) = nick
                                  \<and> split_on CHR '':'' e ! 1 \<noteq> pw)"
  using assms
proof (induction es)
  case Nil
  then show ?case by simp
next
  case (Cons e es)
  then have ih: "password_denied nick pw es
           = Inr (\<exists>e \<in> set es. e \<noteq> [] \<and> hd (split_on CHR '':'' e) = nick
                                  \<and> split_on CHR '':'' e ! 1 \<noteq> pw)" by simp
  show ?case
  proof (cases "e = []")
    case True
    with ih show ?thesis by simp
  next
    case False
    with Cons.prems have "CHR '':'' \<in> set e" by simp
    then have "\<not> length (split_on CHR '':'' e) < 2" using split_on_length [of "CHR '':''" e] by simp
    with False ih show ?thesis by (auto simp: Let_def)
  qed
qed

lemma reject_client:
  "outbox (clientHeap (reject c s) c) = outbox (clientHeap s c) @ [ReplyParts ''462'' [''You may not register'']]"
  "isClosed (clientHeap (reject c s) c)"
  "registered (clientHeap (reject c s) c) = registered (clientHeap s c)"
  by (simp_all add: reject_def clientHeap_send clientHeap_Close)

lemma welcome_client_returns:
  assumes "None \<notin> set (clients s)"
  shows "\<exists>s'. welcome_client env c s = Inr s' \<and> registered (clientHeap s' c)"
proof -
  have "those (clients (welcome_numerics env c s)) = Some (map the (clients s))"
    using those_Some [OF assms] by (simp add: welcome_numerics_def)
  then obtain s6 where "SendLusers c (welcome_numerics env c s) = Inr s6"
    by (simp add: SendLusers_def)
  then have w: "welcome_client env c s = Inr (SendMotd env c s6)" by (simp add: welcome_client_def)
  from welcome_client_registered [OF this] w show ?thesis by blast
qed

text \<open>
  C3, as amended.  A passwords file is configured and the client, with nickname and user
  name set, reaches the check at the end of \<^verbatim>\<open>ClientRegister\<close>.  Without a PASS the
  client is rejected.  With a PASS, a passwords file that cannot be read stops the process
  (\<^verbatim>\<open>log.Fatalf\<close>); a file in which every entry has a colon rejects the client when an
  entry for the nickname carries a password other than the PASS, and lets the registration
  proceed otherwise.  A rejected client is sent numeric 462 and closed, and its
  \<open>registered\<close> flag is left as it was; a registration that proceeds sets the flag.
\<close>

theorem registration_password_check:
  assumes conf: "passwords env \<noteq> []"
    and reached: "nickname (clientHeap s c) \<noteq> ''*''" "username (clientHeap s c) \<noteq> []"
  shows "(password (clientHeap s c) = None \<longrightarrow> registration_check env c s = Inr (reject c s))
    \<and> (\<forall>pw. password (clientHeap s c) = Some pw \<longrightarrow>
         (ReadFile env (passwords env) = None \<longrightarrow> registration_check env c s = Inl Fatal) \<and>
         (\<forall>contents. ReadFile env (passwords env) = Some contents \<longrightarrow>
            (\<forall>e \<in> set (split_on (CHR 0x0A) contents). e \<noteq> [] \<longrightarrow> CHR '':'' \<in> set e) \<longrightarrow>
            registration_check env c s
              = (if \<exists>e \<in> set (split_on (CHR 0x0A) contents).
                      e \<noteq> [] \<and> hd (split_on CHR '':'' e) = nickname (clientHeap s c)
                      \<and> split_on CHR '':'' e ! 1 \<noteq> pw
                 then Inr (reject c s) else welcome_client env c s)))
    \<and> outbox (clientHeap (reject c s) c)
         = outbox (clientHeap s c) @ [ReplyParts ''462'' [''You may not register'']]
    \<and> isClosed (clientHeap (reject c s) c)
    \<and> registered (clientHeap (reject c s) c) = registered (clientHeap s c)
    \<and> (None \<notin> set (clients s) \<longrightarrow>
         (\<exists>s'. welcome_client env c s = Inr s' \<and> registered (clientHeap s' c)))"
proof -
  have a: "registration_check env c s = Inr (reject c s)" if "password (clientHeap s c) = None"
    using that conf reached by (simp add: registration_check_def Let_def)
  have b: "registration_check env c s = Inl Fatal"
    if "password (clientHeap s c) = Some pw" "ReadFile env (passwords env) = None" for pw
    using that conf reached by (simp add: registration_check_def Let_def)
  have d: "registration_check env c s
              = (if \<exists>e \<in> set (split_on (CHR 0x0A) contents).
                      e \<noteq> [] \<and> hd (split_on CHR '':'' e) = nickname (clientHeap s c)
                      \<and> split_on CHR '':'' e ! 1 \<noteq> pw
                 then Inr (reject c s) else welcome_client env c s)"
    if "password (clientHeap s c) = Some pw" "ReadFile env (passwords env) = Some contents"
      "\<forall>e \<in> set (split_on (CHR 0x0A) contents). e \<noteq> [] \<longrightarrow> CHR '':'' \<in> set e" for pw contents
  proof (cases "\<exists>e \<in> set (split_on (CHR 0x0A) contents).
                      e \<noteq> [] \<and> hd (split_on CHR '':'' e) = nickname (clientHeap s c)
                      \<and> split_on CHR '':'' e ! 1 \<noteq> pw")
    case True
    with password_denied_wellformed [OF that(3), of "nickname (clientHeap s c)" pw]
    have "password_denied (nickname (clientHeap s c)) pw (split_on (CHR 0x0A) contents) = Inr True"
      by simp
    with that(1,2) conf reached have "registration_check env c s = Inr (reject c s)"
      by (simp add: registration_check_def Let_def)
    then show ?thesis by (simp only: if_P [OF True])
  next
    case False
    with password_denied_wellformed [OF that(3), of "nickname (clientHeap s c)" pw]
    have "password_denied (nickname (clientHeap s c)) pw (split_on (CHR 0x0A) contents) = Inr False"
      by simp
    with that(1,2) conf reached have "registration_check env c s = welcome_client env c s"
      by (simp add: registration_check_def Let_def)
    then show ?thesis by (simp only: if_not_P [OF False])
  qed
  from a b d reject_client [of c s] welcome_client_returns [of s env c] show ?thesis by blast
qed


theorem registration_password_check_witness:
  "passwords env_file \<noteq> [] \<and> nickname (clientHeap daemon5 1) \<noteq> ''*'' \<and>
   username (clientHeap daemon5 1) \<noteq> [] \<and> password (clientHeap daemon5 1) = Some ''pw'' \<and>
   ReadFile env_file (passwords env_file) = Some passwd_file \<and>
   split_on (CHR 0x0A) passwd_file = [''bob:x'', ''carol:other'', []] \<and>
   registration_check env_file 1 daemon5 = Inr (reject 1 daemon5) \<and>
   isClosed (clientHeap (reject 1 daemon5) 1)"
proof -
  have 1: "passwords env_file \<noteq> []" "nickname (clientHeap daemon5 1) \<noteq> ''*''"
    "username (clientHeap daemon5 1) \<noteq> []"
    by (simp_all add: env_file_def env_pw_def env0_def daemon5_def carol_def client0_def)
  have 2: "password (clientHeap daemon5 1) = Some ''pw''"
    "ReadFile env_file (passwords env_file) = Some passwd_file"
    "nickname (clientHeap daemon5 1) = ''carol''"
    by (simp_all add: env_file_def daemon5_def carol_def client0_def)
  have 3: "split_on (CHR 0x0A) passwd_file = [''bob:x'', ''carol:other'', []]"
    by (simp add: passwd_file_def)
  have 4: "\<forall>e \<in> set (split_on (CHR 0x0A) passwd_file). e \<noteq> [] \<longrightarrow> CHR '':'' \<in> set e"
    by (simp add: 3)
  have 5: "\<exists>e \<in> set (split_on (CHR 0x0A) passwd_file).
             e \<noteq> [] \<and> hd (split_on CHR '':'' e) = nickname (clientHeap daemon5 1)
             \<and> split_on CHR '':'' e ! 1 \<noteq> ''pw''"
    by (simp add: 3 2(3) del: One_nat_def)
  from registration_password_check [OF 1]
  have "registration_check env_file 1 daemon5
      = (if \<exists>e \<in> set (split_on (CHR 0x0A) passwd_file).
             e \<noteq> [] \<and> hd (split_on CHR '':'' e) = nickname (clientHeap daemon5 1)
             \<and> split_on CHR '':'' e ! 1 \<noteq> ''pw''
         then Inr (reject 1 daemon5) else welcome_client env_file 1 daemon5)"
    and "isClosed (clientHeap (reject 1 daemon5) 1)"
    using 2(1,2) 4 by blast+
  then have "registration_check env_file 1 daemon5 = Inr (reject 1 daemon5)"
    "isClosed (clientHeap (reject 1 daemon5) 1)"
    by (simp_all only: if_P [OF 5])
  with 1 2(1,2) 3 show ?thesis by blast
qed

lemma Processor_unregistered:
  assumes "\<not> registered (clientHeap s c)" "ToUpper (split_n CHR '' '' 2 line ! 0) \<noteq> ''QUIT''"
  shows "Processor env now timeNow \<lparr>client = Some c, eventType = EventMsg, text' = line\<rparr> s
           = ClientRegister env c (ToUpper (split_n CHR '' '' 2 line ! 0)) (split_n CHR '' '' 2 line) s"
proof (cases "ClientRegister env c (ToUpper (split_n CHR '' '' 2 line ! 0)) (split_n CHR '' '' 2 line) s")
  case (Inl e)
  with assms show ?thesis by (simp add: Processor_def handle_event_def handle_msg_def Let_def)
next
  case (Inr s1)
  with assms show ?thesis by (simp add: Processor_def handle_event_def handle_msg_def Let_def)
qed

lemma user_carol_registers:
  "Processor env now timeNow user_carol daemon4 = registration_check env 1 daemon5"
proof -
  have cols: "split_n CHR '' '' 2 ''USER carol 0 * :Carol'' = [''USER'', ''carol 0 * :Carol'']"
    by simp
  have cmd: "ToUpper ''USER'' = ''USER''"
    by (simp add: ToUpper_def to_upper_char_def lower_letters_def upper_letters_def)
  have args: "split_n CHR '' '' 4 ''carol 0 * :Carol'' = [''carol'', ''0'', ''*'', '':Carol'']"
    by simp
  have unreg: "\<not> registered (clientHeap daemon4 1)"
    by (simp add: daemon4_def carol_def client0_def)
  have st: "upd_client 1 (\<lambda>x. x\<lparr>username := ''carol'', realname := Some ''Carol''\<rparr>) daemon4 = daemon5"
    by (simp add: upd_client_def daemon4_def daemon5_def del: One_nat_def)
  have rc: "register_command 1 ''USER'' [''USER'', ''carol 0 * :Carol''] daemon4 = Inr (Next, daemon5)"
    by (simp add: register_command_def args TrimLeft_colon_def st del: One_nat_def)
  have "Processor env now timeNow user_carol daemon4
      = ClientRegister env 1 ''USER'' [''USER'', ''carol 0 * :Carol''] daemon4"
    unfolding user_carol_def
    using Processor_unregistered [OF unreg, of "''USER carol 0 * :Carol''" env now timeNow]
    by (simp add: cols cmd)
  also have "\<dots> = registration_check env 1 daemon5"
    by (simp add: ClientRegister_def rc del: One_nat_def)
  finally show ?thesis .
qed

text \<open>
  C3, as stated, fails: when the passwords file cannot be read the process stops at
  Carol's USER command, whereas an empty file lets her register.
\<close>

theorem password_file_unreadable_counterexample:
  "Processor env_pw 100 (\<lambda>_. 100) user_carol daemon4 = Inl Fatal \<and>
   registered_of (Processor (env_pw\<lparr>ReadFile := (\<lambda>_. Some [])\<rparr>) 100 (\<lambda>_. 100) user_carol daemon4) 1
     = Inr True"
proof -
  have c: "nickname (clientHeap daemon5 1) = ''carol''" "username (clientHeap daemon5 1) = ''carol''"
    "password (clientHeap daemon5 1) = Some ''pw''" "None \<notin> set (clients daemon5)"
    by (simp_all add: daemon5_def carol_def client0_def)
  have e: "passwords env_pw = ''/etc/goircd.passwd''" "ReadFile env_pw = (\<lambda>_. None)"
    by (simp_all add: env_pw_def env0_def)
  have "registration_check env_pw 1 daemon5 = Inl Fatal"
    by (simp add: registration_check_def c e del: One_nat_def)
  moreover have "registration_check (env_pw\<lparr>ReadFile := (\<lambda>_. Some [])\<rparr>) 1 daemon5
      = welcome_client (env_pw\<lparr>ReadFile := (\<lambda>_. Some [])\<rparr>) 1 daemon5"
    by (simp add: registration_check_def c e del: One_nat_def)
  moreover from welcome_client_returns [OF c(4), of "env_pw\<lparr>ReadFile := (\<lambda>_. Some [])\<rparr>" 1]
  obtain s' where "welcome_client (env_pw\<lparr>ReadFile := (\<lambda>_. Some [])\<rparr>) 1 daemon5 = Inr s'"
    "registered (clientHeap s' 1)" by blast
  ultimately show ?thesis by (simp add: user_carol_registers registered_of_def)
qed

section \<open>Loading the saved rooms at startup (C8)\<close>

lemma set_update_subset: "set (AList.update k v al) \<subseteq> insert (k, v) (set al)"
  by (induction al) auto

lemma load_state_step:
  "\<exists>s1. load_state (nm, Some buf) s = Inr s1 \<and> nextRoom s1 = Suc (nextRoom s) \<and>
     rooms s1 = AList.update nm (nextRoom s) (rooms s) \<and>
     roomSinks s1 = AList.update (nextRoom s) (nextChan s) (roomSinks s) \<and>
     (\<forall>r. r \<noteq> nextRoom s \<longrightarrow> roomHeap s1 r = roomHeap s r) \<and>
     name (roomHeap s1 (nextRoom s)) = nm \<and> members (roomHeap s1 (nextRoom s)) = [] \<and>
     (if length (split_on (CHR 0x0A) buf) < 2
      then topic (roomHeap s1 (nextRoom s)) = [] \<and> key (roomHeap s1 (nextRoom s)) = []
      else topic (roomHeap s1 (nextRoom s)) = split_on (CHR 0x0A) buf ! 0
           \<and> key (roomHeap s1 (nextRoom s)) = split_on (CHR 0x0A) buf ! 1)"
  by (simp add: load_state_def case_prod_beta RoomRegister_fields Let_def NewRoom_def)

lemma load_states_loop:
  assumes "\<forall>p \<in> set (rooms s). snd p < nextRoom s" "distinct (map fst states)"
    "\<forall>st \<in> set states. snd st \<noteq> None"
  shows "\<exists>s'. for_each load_state states s = Inr s' \<and> nextRoom s \<le> nextRoom s' \<and>
     (\<forall>p \<in> set (rooms s'). snd p < nextRoom s') \<and>
     (\<forall>n. n \<notin> fst ` set states \<longrightarrow> map_of (rooms s') n = map_of (rooms s) n) \<and>
     (\<forall>r < nextRoom s. roomHeap s' r = roomHeap s r \<and>
        (map_of (roomSinks s) r \<noteq> None \<longrightarrow> map_of (roomSinks s') r \<noteq> None)) \<and>
     (\<forall>st \<in> set states. room_loaded s' (fst st) (the (snd st)))"
  using assms
proof (induction states arbitrary: s)
  case Nil
  then show ?case by simp
next
  case (Cons st states)
  from Cons.prems(3) obtain nm buf where st: "st = (nm, Some buf)" by (cases st) auto
  let ?r = "nextRoom s"
  from load_state_step [of nm buf s] obtain s1 where s1: "load_state (nm, Some buf) s = Inr s1"
    and nr: "nextRoom s1 = Suc ?r"
    and rooms1: "rooms s1 = AList.update nm ?r (rooms s)"
    and sinks1: "roomSinks s1 = AList.update ?r (nextChan s) (roomSinks s)"
    and heap1: "\<And>r. r \<noteq> ?r \<Longrightarrow> roomHeap s1 r = roomHeap s r"
    and new: "name (roomHeap s1 ?r) = nm" "members (roomHeap s1 ?r) = []"
      "if length (split_on (CHR 0x0A) buf) < 2
       then topic (roomHeap s1 ?r) = [] \<and> key (roomHeap s1 ?r) = []
       else topic (roomHeap s1 ?r) = split_on (CHR 0x0A) buf ! 0
            \<and> key (roomHeap s1 ?r) = split_on (CHR 0x0A) buf ! 1"
    by blast
  have fresh1: "\<forall>p \<in> set (rooms s1). snd p < nextRoom s1"
  proof
    fix p assume "p \<in> set (rooms s1)"
    with set_update_subset [of nm ?r "rooms s"] have "p = (nm, ?r) \<or> p \<in> set (rooms s)"
      by (auto simp: rooms1)
    with Cons.prems(1) show "snd p < nextRoom s1" by (auto simp: nr less_Suc_eq)
  qed
  from Cons.prems(2,3) have "distinct (map fst states)" "\<forall>st \<in> set states. snd st \<noteq> None"
    and nm_new: "nm \<notin> fst ` set states" by (auto simp: st)
  from Cons.IH [OF fresh1 this(1,2)] obtain s' where
    res: "for_each load_state states s1 = Inr s'" and le: "nextRoom s1 \<le> nextRoom s'"
    and fresh': "\<forall>p \<in> set (rooms s'). snd p < nextRoom s'"
    and other: "\<And>n. n \<notin> fst ` set states \<Longrightarrow> map_of (rooms s') n = map_of (rooms s1) n"
    and old: "\<And>r. r < nextRoom s1 \<Longrightarrow> roomHeap s' r = roomHeap s1 r \<and>
        (map_of (roomSinks s1) r \<noteq> None \<longrightarrow> map_of (roomSinks s') r \<noteq> None)"
    and rest: "\<forall>st \<in> set states. room_loaded s' (fst st) (the (snd st))"
    by blast
  have 1: "for_each load_state (st # states) s = Inr s'" using s1 res by (simp add: st)
  have 2: "nextRoom s \<le> nextRoom s'" using le nr by simp
  have 3: "map_of (rooms s') n = map_of (rooms s) n" if "n \<notin> fst ` set (st # states)" for n
    using that other [of n] by (simp add: st rooms1 update_conv')
  have 4: "roomHeap s' r = roomHeap s r \<and>
        (map_of (roomSinks s) r \<noteq> None \<longrightarrow> map_of (roomSinks s') r \<noteq> None)" if "r < ?r" for r
    using that old [of r] heap1 [of r] by (simp add: nr sinks1 update_conv')
  have 5: "room_loaded s' nm buf"
  proof -
    have a: "map_of (rooms s') nm = Some ?r"
      using other [OF nm_new] by (simp add: rooms1 update_conv')
    from old [of ?r] have b: "roomHeap s' ?r = roomHeap s1 ?r" "map_of (roomSinks s') ?r \<noteq> None"
      by (simp_all add: nr sinks1 update_conv')
    show ?thesis
      unfolding room_loaded_def using new by (simp add: a b Let_def del: One_nat_def)
  qed
  from 1 2 fresh' 3 4 5 rest show ?case by (auto simp: st)
qed

text \<open>
  C8, as amended.  The state files found at startup have different names and can all be
  read (and rooms made earlier lie below \<open>nextRoom\<close>).  Then loading them returns, and
  for every file a room of that name is registered in both maps, without members; its
  topic and key are the first and second line of the file, or, when the file has fewer
  than two lines, the empty topic and key of a new room.
\<close>

theorem load_states_registers_rooms:
  assumes "\<forall>p \<in> set (rooms s). snd p < nextRoom s" "distinct (map fst states)"
    "\<forall>st \<in> set states. snd st \<noteq> None"
  shows "\<exists>s'. load_states states s = Inr s' \<and>
           (\<forall>st \<in> set states. room_loaded s' (fst st) (the (snd st)))"
  using load_states_loop [OF assms] unfolding load_states_def by blast

text \<open>
  C8, as stated, fails: a state file with a single line still leaves a room registered
  under its name.
\<close>

theorem corrupted_state_counterexample:
  "length (split_on (CHR 0x0A) ''broken'') < 2 \<and>
   room_of (load_states [(''#b'', Some ''broken'')] daemon0) ''#b'' = Inr (Some 0)"
  by (simp add: load_states_def load_state_def RoomRegister_def daemon0_def room_of_def)

theorem load_states_registers_rooms_witness:
  "distinct (map fst state_files) \<and>
   (\<exists>s'. load_states state_files daemon0 = Inr s' \<and>
      room_loaded s' ''#a'' (''hello'' @ [CHR 0x0A] @ ''secret'' @ [CHR 0x0A]) \<and>
      room_loaded s' ''#b'' ''broken'')"
proof -
  have 1: "\<forall>p \<in> set (rooms daemon0). snd p < nextRoom daemon0" by (simp add: daemon0_def)
  have 2: "distinct (map fst state_files)" "\<forall>st \<in> set state_files. snd st \<noteq> None"
    by (simp_all add: state_files_def)
  from load_states_registers_rooms [OF 1 2] 2(1) show ?thesis
    by (simp add: state_files_def)
qed

end
